theory Spec2Isabelle
  imports Main "HOL-Library.Char_ord" "HOL-Library.List_Lexorder"
begin

section \<open>The documentation-navigation synchronizer (scripts/sync-docs-config.ts)\<close>

text \<open>
  A shallow embedding of \<^verbatim>\<open>scripts/sync-docs-config.ts\<close>. JavaScript strings are
  modelled as \<open>string\<close> (lists of 8-bit characters), so the model covers ASCII text; the
  whitespace class \<^verbatim>\<open>\s\<close> is its ASCII part. Paths follow the POSIX flavour of
  \<^verbatim>\<open>node:path\<close> (separator \<^verbatim>\<open>/\<close>).
\<close>

subsection \<open>JavaScript string primitives\<close>

definition nl :: char where "nl = CHR 0x0A"
definition cr :: char where "cr = CHR 0x0D"
definition dq :: char where "dq = CHR 0x22"
definition sq :: char where "sq = CHR 0x27"

definition isSpace :: "char \<Rightarrow> bool" where
  "isSpace c = (c = CHR 0x09 \<or> c = CHR 0x0A \<or> c = CHR 0x0B \<or> c = CHR 0x0C
                \<or> c = CHR 0x0D \<or> c = CHR 0x20)"

definition trim :: "string \<Rightarrow> string" where
  "trim s = rev (dropWhile isSpace (rev (dropWhile isSpace s)))"

definition startsWith :: "string \<Rightarrow> string \<Rightarrow> bool" where
  "startsWith s p = (take (length p) s = p)"

definition endsWith :: "string \<Rightarrow> string \<Rightarrow> bool" where
  "endsWith s p = (length p \<le> length s \<and> drop (length s - length p) s = p)"

definition lowerChar :: "char \<Rightarrow> char" where
  "lowerChar c = (if CHR ''A'' \<le> c \<and> c \<le> CHR ''Z''
                  then char_of (of_char c + (32::nat)) else c)"

definition toLowerCase :: "string \<Rightarrow> string" where
  "toLowerCase s = map lowerChar s"

text \<open>\<^verbatim>\<open>s.indexOf(c)\<close> and \<^verbatim>\<open>s.lastIndexOf(c)\<close>; \<open>None\<close> stands for \<^verbatim>\<open>-1\<close>.\<close>

fun indexOf :: "char \<Rightarrow> string \<Rightarrow> nat option" where
  "indexOf c [] = None"
| "indexOf c (x # xs) = (if x = c then Some 0 else map_option Suc (indexOf c xs))"

fun lastIndexOf :: "char \<Rightarrow> string \<Rightarrow> nat option" where
  "lastIndexOf c [] = None"
| "lastIndexOf c (x # xs) =
     (case lastIndexOf c xs of
        Some i \<Rightarrow> Some (Suc i)
      | None \<Rightarrow> (if x = c then Some 0 else None))"

text \<open>\<^verbatim>\<open>s.split(c)\<close> for a one-character separator: never the empty list.\<close>

fun splitOnChar :: "char \<Rightarrow> string \<Rightarrow> string list" where
  "splitOnChar c [] = [[]]"
| "splitOnChar c (x # xs) =
     (if x = c then [] # splitOnChar c xs
      else (case splitOnChar c xs of
              h # t \<Rightarrow> (x # h) # t
            | [] \<Rightarrow> [[x]]))"

text \<open>First index at which \<open>pat\<close> occurs in \<open>s\<close>.\<close>

fun findSub :: "string \<Rightarrow> string \<Rightarrow> nat option" where
  "findSub pat [] = (if pat = [] then Some 0 else None)"
| "findSub pat (x # xs) =
     (if startsWith (x # xs) pat then Some 0 else map_option Suc (findSub pat xs))"

text \<open>A truthy JavaScript value of type \<^verbatim>\<open>string | undefined\<close>: present and non-empty.\<close>

definition truthy :: "string option \<Rightarrow> bool" where
  "truthy v = (case v of None \<Rightarrow> False | Some s \<Rightarrow> s \<noteq> [])"

subsection \<open>The POSIX path functions of node:path\<close>

text \<open>
  \<^verbatim>\<open>resolve\<close>, \<^verbatim>\<open>join\<close>, \<^verbatim>\<open>dirname\<close>, \<^verbatim>\<open>basename\<close> and \<^verbatim>\<open>relative\<close> are library
  functions of the runtime; they are modelled after their POSIX implementation. The
  working directory is a parameter \<open>cwd\<close>, given as the list of its segments, so that
  \<^verbatim>\<open>process.cwd()\<close> is an absolute path as the operating system has it.
\<close>

definition joinSegs :: "string list \<Rightarrow> string" where
  "joinSegs segs = (case segs of [] \<Rightarrow> [] | s # ss \<Rightarrow> s @ concat (map (\<lambda>t. CHR ''/'' # t) ss))"

fun normalizeSegs :: "bool \<Rightarrow> string list \<Rightarrow> string list \<Rightarrow> string list" where
  "normalizeSegs allowAboveRoot acc [] = acc"
| "normalizeSegs allowAboveRoot acc (s # ss) =
     (if s = [] \<or> s = ''.'' then normalizeSegs allowAboveRoot acc ss
      else if s = ''..'' then
        (if acc \<noteq> [] \<and> last acc \<noteq> ''..'' then normalizeSegs allowAboveRoot (butlast acc) ss
         else if allowAboveRoot then normalizeSegs allowAboveRoot (acc @ [''..'']) ss
         else normalizeSegs allowAboveRoot acc ss)
      else normalizeSegs allowAboveRoot (acc @ [s]) ss)"

fun resolveLoop :: "string list \<Rightarrow> string \<Rightarrow> string" where
  "resolveLoop [] acc = acc"
| "resolveLoop (p # ps) acc =
     (if p = [] then resolveLoop ps acc
      else if hd p = CHR ''/'' then p @ ''/'' @ acc
      else resolveLoop ps (p @ ''/'' @ acc))"

definition posixCwd :: "string list \<Rightarrow> string" where
  "posixCwd cwd = CHR ''/'' # joinSegs cwd"

definition resolve :: "string list \<Rightarrow> string list \<Rightarrow> string" where
  "resolve cwd args =
     (let resolvedPath = resolveLoop (rev args @ [posixCwd cwd]) [];
          resolvedAbsolute = startsWith resolvedPath ''/'';
          segs = normalizeSegs (\<not> resolvedAbsolute) [] (splitOnChar CHR ''/'' resolvedPath)
      in if resolvedAbsolute then CHR ''/'' # joinSegs segs
         else if segs \<noteq> [] then joinSegs segs else ''.'')"

definition normalize :: "string \<Rightarrow> string" where
  "normalize path =
     (if path = [] then ''.''
      else let isAbsolute = (hd path = CHR ''/'');
               trailingSeparator = (last path = CHR ''/'');
               p = joinSegs (normalizeSegs (\<not> isAbsolute) [] (splitOnChar CHR ''/'' path))
           in if p = [] then (if isAbsolute then ''/''
                              else if trailingSeparator then ''./'' else ''.'')
              else (if isAbsolute then ''/'' else []) @ p
                   @ (if trailingSeparator then ''/'' else []))"

definition join :: "string \<Rightarrow> string \<Rightarrow> string" where
  "join a b =
     (let joined = joinSegs (filter (\<lambda>s. s \<noteq> []) [a, b])
      in if joined = [] then ''.'' else normalize joined)"

fun dirnameEnd :: "string \<Rightarrow> nat \<Rightarrow> bool \<Rightarrow> nat option" where
  "dirnameEnd path 0 matchedSlash = None"
| "dirnameEnd path (Suc j) matchedSlash =
     (if path ! Suc j = CHR ''/''
      then (if \<not> matchedSlash then Some (Suc j) else dirnameEnd path j matchedSlash)
      else dirnameEnd path j False)"

definition dirname :: "string \<Rightarrow> string" where
  "dirname path =
     (if path = [] then ''.''
      else let hasRoot = (hd path = CHR ''/'')
           in case dirnameEnd path (length path - 1) True of
                None \<Rightarrow> (if hasRoot then ''/'' else ''.'')
              | Some e \<Rightarrow> (if hasRoot \<and> e = 1 then ''//'' else take e path))"

definition basename :: "string \<Rightarrow> string" where
  "basename path =
     rev (takeWhile (\<lambda>c. c \<noteq> CHR ''/'') (dropWhile (\<lambda>c. c = CHR ''/'') (rev path)))"

definition pathSegs :: "string \<Rightarrow> string list" where
  "pathSegs p = filter (\<lambda>s. s \<noteq> []) (splitOnChar CHR ''/'' p)"

fun commonPrefixLen :: "string list \<Rightarrow> string list \<Rightarrow> nat" where
  "commonPrefixLen (x # xs) (y # ys) = (if x = y then Suc (commonPrefixLen xs ys) else 0)"
| "commonPrefixLen xs ys = 0"

definition relative :: "string list \<Rightarrow> string \<Rightarrow> string \<Rightarrow> string" where
  "relative cwd from to_path =
     (let f = pathSegs (resolve cwd [from]);
          t = pathSegs (resolve cwd [to_path]);
          n = commonPrefixLen f t
      in joinSegs (replicate (length f - n) ''..'' @ drop n t))"

subsection \<open>Routes\<close>

text \<open>\<^verbatim>\<open>relPath.replace(/\.(md|mdx)$/i, '')\<close>.\<close>

definition stripExt :: "string \<Rightarrow> string" where
  "stripExt s =
     (let l = toLowerCase s
      in if endsWith l ''.mdx'' then take (length s - 4) s
         else if endsWith l ''.md'' then take (length s - 3) s
         else s)"

text \<open>On POSIX \<^verbatim>\<open>sep\<close> is \<^verbatim>\<open>/\<close>, so \<^verbatim>\<open>split(sep).join('/')\<close> is the identity.\<close>

definition routeFromFile :: "string list \<Rightarrow> string \<Rightarrow> string \<Rightarrow> string" where
  "routeFromFile cwd baseDir filePath = stripExt (relative cwd baseDir filePath)"

definition parentRoute :: "string \<Rightarrow> string" where
  "parentRoute route =
     (case lastIndexOf CHR ''/'' route of None \<Rightarrow> [] | Some idx \<Rightarrow> take idx route)"

text \<open>\<^verbatim>\<open>README_REGEX = /^readme\.mdx?$/i\<close> and \<^verbatim>\<open>DRAFT_REGEX = /\.draft\.mdx?$/i\<close>.\<close>

definition isReadme :: "string \<Rightarrow> bool" where
  "isReadme fileName =
     (toLowerCase fileName = ''readme.md'' \<or> toLowerCase fileName = ''readme.mdx'')"

definition isDraft :: "string \<Rightarrow> bool" where
  "isDraft fileName =
     (endsWith (toLowerCase fileName) ''.draft.md''
      \<or> endsWith (toLowerCase fileName) ''.draft.mdx'')"

subsection \<open>Frontmatter\<close>

record FrontmatterInfo =
  title :: "string option"
  skip :: "bool option"
  ref :: "string option"

definition emptyInfo :: FrontmatterInfo where
  "emptyInfo = \<lparr>title = None, skip = None, ref = None\<rparr>"

text \<open>
  Capture group 1 of \<^verbatim>\<open>FRONTMATTER_REGEX = /^---\s*\n([\s\S]*?)\n---\s*/\<close>. After the
  opening dashes the greedy \<^verbatim>\<open>\s*\<close> is tried from the longest whitespace run \<open>k\<close>
  downwards; it must be followed by a newline, and the lazy group then extends to the
  first \<^verbatim>\<open>\n---\<close>.
\<close>

definition blockAt :: "nat \<Rightarrow> string \<Rightarrow> string option" where
  "blockAt k rest =
     (if k < length rest \<and> rest ! k = nl
      then (let body = drop (Suc k) rest
            in map_option (\<lambda>j. take j body) (findSub (nl # ''---'') body))
      else None)"

fun tryWs :: "nat \<Rightarrow> string \<Rightarrow> string option" where
  "tryWs 0 rest = blockAt 0 rest"
| "tryWs (Suc k) rest =
     (case blockAt (Suc k) rest of Some b \<Rightarrow> Some b | None \<Rightarrow> tryWs k rest)"

definition frontmatterBlock :: "string \<Rightarrow> string option" where
  "frontmatterBlock raw =
     (if startsWith raw ''---''
      then tryWs (length (takeWhile isSpace (drop 3 raw))) (drop 3 raw)
      else None)"

text \<open>\<^verbatim>\<open>block.split(/\r?\n/)\<close>: a carriage return directly before a newline belongs to
  the separator.\<close>

definition stripCR :: "string \<Rightarrow> string" where
  "stripCR piece = (if piece \<noteq> [] \<and> last piece = cr then butlast piece else piece)"

definition splitLines :: "string \<Rightarrow> string list" where
  "splitLines block =
     (let ps = splitOnChar nl block in map stripCR (butlast ps) @ [last ps])"

text \<open>\<^verbatim>\<open>valuePart.split(/\s+#/)[0]\<close>: the text before the first whitespace run that is
  directly followed by \<^verbatim>\<open>#\<close>.\<close>

fun cutComment :: "string \<Rightarrow> string" where
  "cutComment [] = []"
| "cutComment (c # cs) =
     (if isSpace c \<and> (case dropWhile isSpace cs of d # _ \<Rightarrow> d = CHR ''#'' | [] \<Rightarrow> False)
      then []
      else c # cutComment cs)"

definition stripQuotes :: "string \<Rightarrow> string" where
  "stripQuotes v =
     (if (startsWith v [dq] \<and> endsWith v [dq]) \<or> (startsWith v [sq] \<and> endsWith v [sq])
      then butlast (tl v)
      else v)"

text \<open>The body of the loop over the lines of the header block.\<close>

definition parseLine :: "FrontmatterInfo \<Rightarrow> string \<Rightarrow> FrontmatterInfo" where
  "parseLine info line =
     (let trimmed = trim line
      in if trimmed = [] \<or> startsWith trimmed ''#'' then info
         else (case indexOf CHR '':'' trimmed of
                 None \<Rightarrow> info
               | Some colonIndex \<Rightarrow>
                   if colonIndex = 0 then info
                   else (let keyPart = trim (take colonIndex trimmed);
                             valuePart = trim (drop (Suc colonIndex) trimmed)
                         in if valuePart = [] then info
                            else (let valuePart = cutComment valuePart
                                  in if keyPart = ''title''
                                     then info\<lparr>title := Some (trim (stripQuotes valuePart))\<rparr>
                                     else if keyPart = ''skip''
                                     then (let normalized = toLowerCase valuePart
                                           in info\<lparr>skip := Some (normalized = ''true''
                                                \<or> normalized = ''yes'' \<or> normalized = ''1'')\<rparr>)
                                     else if keyPart = ''ref''
                                     then info\<lparr>ref := Some (stripQuotes valuePart)\<rparr>
                                     else info))))"

definition parseBlock :: "string \<Rightarrow> FrontmatterInfo" where
  "parseBlock block = foldl parseLine emptyInfo (splitLines block)"

text \<open>\<^verbatim>\<open>resolveRefPath\<close>; \<^verbatim>\<open>REPO_ROOT = resolve('.')\<close> is the working directory.\<close>

definition resolveRefPath :: "string list \<Rightarrow> string \<Rightarrow> string \<Rightarrow> string \<Rightarrow> string option" where
  "resolveRefPath cwd sourceFile refValue docsDir =
     (let cleanRef = takeWhile (\<lambda>c. \<not> isSpace c \<and> c \<noteq> CHR ''#'') refValue
      in if cleanRef = [] then None
         else if startsWith cleanRef ''.'' then Some (resolve cwd [dirname sourceFile, cleanRef])
         else if startsWith cleanRef ''docs/'' then Some (resolve cwd [resolve cwd [''.''], cleanRef])
         else Some (resolve cwd [docsDir, cleanRef]))"

subsection \<open>The file system and the frontmatter cache\<close>

text \<open>
  The regular files of the file system, each under its absolute normalised path with its
  text. \<^verbatim>\<open>fs.readFile\<close> fails (\<open>None\<close>) for a path that names no such file.
\<close>

type_synonym filesystem = "(string \<times> string) list"

definition readFile :: "string list \<Rightarrow> filesystem \<Rightarrow> string \<Rightarrow> string option" where
  "readFile cwd fs path = map_of fs (resolve cwd [path])"

text \<open>\<^verbatim>\<open>docInfoCache\<close>: \<open>None\<close> is a key the map does not have, \<open>Some None\<close> a cached
  \<^verbatim>\<open>null\<close>.\<close>

type_synonym docInfoCache = "string \<rightharpoonup> FrontmatterInfo option"

text \<open>Lines 170 to 173: what a file takes over from the file it refers to.\<close>

definition adopt :: "FrontmatterInfo \<Rightarrow> FrontmatterInfo option \<Rightarrow> FrontmatterInfo" where
  "adopt info referenced =
     (case referenced of
        None \<Rightarrow> info
      | Some r \<Rightarrow>
          (let info1 = (if truthy (title r) then info\<lparr>title := title r\<rparr> else info)
           in if skip r = Some True then info1\<lparr>skip := Some True\<rparr> else info1))"

subsection \<open>Resolved paths are fixed points of resolve\<close>

text \<open>Used for the termination of \<^verbatim>\<open>readDocInfo\<close>: a resolved reference is its own
  cache key.\<close>

definition properSeg :: "string \<Rightarrow> bool" where
  "properSeg s = (s \<noteq> [] \<and> s \<noteq> ''.'' \<and> s \<noteq> ''..'' \<and> CHR ''/'' \<notin> set s)"

lemma splitOnChar_notin: "t \<in> set (splitOnChar c s) \<Longrightarrow> c \<notin> set t"
  by (induction s arbitrary: t) (auto split: list.splits if_splits)

lemma splitOnChar_append_sep:
  "c \<notin> set s \<Longrightarrow> splitOnChar c (s @ c # rest) = s # splitOnChar c rest"
  by (induction s) (auto split: list.splits)

lemma splitOnChar_plain: "c \<notin> set s \<Longrightarrow> splitOnChar c s = [s]"
  by (induction s) (auto split: list.splits)

lemma splitOnChar_joined:
  "c \<notin> set s \<Longrightarrow> \<forall>t \<in> set ss. c \<notin> set t \<Longrightarrow>
   splitOnChar c (s @ concat (map (\<lambda>t. c # t) ss)) = s # ss"
  by (induction ss arbitrary: s) (simp_all add: splitOnChar_plain splitOnChar_append_sep)

lemma splitOnChar_joinSegs:
  "segs \<noteq> [] \<Longrightarrow> \<forall>t \<in> set segs. CHR ''/'' \<notin> set t \<Longrightarrow>
   splitOnChar CHR ''/'' (joinSegs segs) = segs"
  by (cases segs) (simp_all add: joinSegs_def splitOnChar_joined)

lemma joinSegs_snoc_empty: "segs \<noteq> [] \<Longrightarrow> joinSegs segs @ ''/'' = joinSegs (segs @ [[]])"
  by (cases segs) (simp_all add: joinSegs_def)

lemma normalizeSegs_proper_out:
  "\<forall>s \<in> set acc. properSeg s \<Longrightarrow> \<forall>s \<in> set xs. CHR ''/'' \<notin> set s \<Longrightarrow>
   \<forall>s \<in> set (normalizeSegs False acc xs). properSeg s"
proof (induction xs arbitrary: acc)
  case Nil
  then show ?case by simp
next
  case (Cons x xs)
  have bl: "\<forall>s \<in> set (butlast acc). properSeg s"
    using Cons.prems(1) by (meson in_set_butlastD)
  have app: "properSeg x \<Longrightarrow> \<forall>s \<in> set (acc @ [x]). properSeg s"
    using Cons.prems(1) by simp
  have tl: "\<forall>s \<in> set xs. CHR ''/'' \<notin> set s" using Cons.prems(2) by simp
  have px: "x \<noteq> [] \<Longrightarrow> x \<noteq> ''.'' \<Longrightarrow> x \<noteq> ''..'' \<Longrightarrow> properSeg x"
    using Cons.prems(2) by (simp add: properSeg_def)
  show ?case
    using Cons.IH[OF Cons.prems(1) tl] Cons.IH[OF bl tl] Cons.IH[OF app tl] px
    by simp
qed

lemma normalizeSegs_proper_in:
  "\<forall>s \<in> set xs. properSeg s \<or> s = [] \<Longrightarrow> normalizeSegs a acc xs = acc @ filter (\<lambda>s. s \<noteq> []) xs"
  by (induction xs arbitrary: acc) (auto simp: properSeg_def)

lemma resolveLoop_abs: "startsWith (resolveLoop (ps @ [posixCwd cwd]) acc) ''/''"
  by (induction ps arbitrary: acc) (auto simp: startsWith_def posixCwd_def neq_Nil_conv)

lemma resolve_shape:
  "\<exists>segs. resolve cwd args = CHR ''/'' # joinSegs segs \<and> (\<forall>s \<in> set segs. properSeg s)"
proof -
  let ?rp = "resolveLoop (rev args @ [posixCwd cwd]) []"
  let ?segs = "normalizeSegs False [] (splitOnChar CHR ''/'' ?rp)"
  have "resolve cwd args = CHR ''/'' # joinSegs ?segs"
    using resolveLoop_abs[of "rev args" cwd "[]"] by (simp add: resolve_def Let_def)
  moreover have "\<forall>s \<in> set ?segs. properSeg s"
    by (rule normalizeSegs_proper_out) (simp_all add: splitOnChar_notin)
  ultimately show ?thesis by blast
qed

lemma resolve_proper_idem:
  assumes "\<forall>s \<in> set segs. properSeg s"
  shows "resolve cwd [CHR ''/'' # joinSegs segs] = CHR ''/'' # joinSegs segs"
proof -
  have nosl: "\<forall>t \<in> set (segs @ [[]]). CHR ''/'' \<notin> set t"
    using assms by (auto simp: properSeg_def)
  have norm: "normalizeSegs False [] (splitOnChar CHR ''/'' ((CHR ''/'' # joinSegs segs) @ ''/'')) = segs"
  proof (cases "segs = []")
    case True
    then show ?thesis by (simp add: joinSegs_def)
  next
    case False
    have "splitOnChar CHR ''/'' (joinSegs (segs @ [[]])) = segs @ [[]]"
      by (rule splitOnChar_joinSegs) (use nosl in simp_all)
    then have "splitOnChar CHR ''/'' ((CHR ''/'' # joinSegs segs) @ ''/'') = [] # segs @ [[]]"
      using False by (simp add: joinSegs_snoc_empty)
    moreover have "normalizeSegs False [] ([] # segs @ [[]]) = segs"
      using assms by (subst normalizeSegs_proper_in) (auto simp: properSeg_def filter_id_conv)
    ultimately show ?thesis by simp
  qed
  show ?thesis
    using norm by (simp add: resolve_def Let_def startsWith_def)
qed

lemma resolve_idem: "resolve cwd [resolve cwd args] = resolve cwd args"
  using resolve_shape[of cwd args] resolve_proper_idem by auto

subsection \<open>readDocInfo\<close>

text \<open>
  \<^verbatim>\<open>readDocInfo(filePath, docsDir, stack)\<close> with the cache passed in and returned. The
  set \<open>stack\<close> is shared and mutable in the source; a call adds the reference before it
  recurses and deletes it afterwards, so the caller's set is the same before and after.
\<close>

function (domintros) readDocInfo ::
  "string list \<Rightarrow> filesystem \<Rightarrow> docInfoCache \<Rightarrow> string \<Rightarrow> string \<Rightarrow> string set
     \<Rightarrow> FrontmatterInfo option \<times> docInfoCache" where
  "readDocInfo cwd fs cache filePath docsDir stack =
     (let key = resolve cwd [filePath]
      in case cache key of
           Some cached \<Rightarrow> (cached, cache)
         | None \<Rightarrow>
             (case readFile cwd fs filePath of
                None \<Rightarrow> (None, cache(key \<mapsto> None))
              | Some raw \<Rightarrow>
                  (case frontmatterBlock raw of
                     None \<Rightarrow> (None, cache(key \<mapsto> None))
                   | Some block \<Rightarrow>
                       (let info = parseBlock block
                        in if \<not> truthy (title info) \<and> truthy (ref info)
                           then (case resolveRefPath cwd filePath (the (ref info)) docsDir of
                                   None \<Rightarrow> (Some info, cache(key \<mapsto> Some info))
                                 | Some refPath \<Rightarrow>
                                     if refPath \<notin> stack
                                     then (case readDocInfo cwd fs cache refPath docsDir
                                                  (insert refPath stack) of
                                             (referenced, cache') \<Rightarrow>
                                               (let info' = adopt info referenced
                                                in (Some info', cache'(key \<mapsto> Some info'))))
                                     else (Some info, cache(key \<mapsto> Some info)))
                           else (Some info, cache(key \<mapsto> Some info))))))"
  by pat_completeness auto

lemma resolveRefPath_resolved:
  "resolveRefPath cwd f r d = Some p \<Longrightarrow> resolve cwd [p] = p"
  by (auto simp: resolveRefPath_def Let_def resolve_idem split: if_splits)

text \<open>
  The recursion follows a reference only to a path outside \<open>stack\<close> and puts it on the
  stack, and only a readable file has a reference to follow: twice the number of files
  off the stack, plus one when the file itself is readable, decreases.
\<close>

definition readMeasure :: "string list \<times> filesystem \<times> docInfoCache \<times> string \<times> string \<times> string set \<Rightarrow> nat" where
  "readMeasure = (\<lambda>(cwd, fs, cache, filePath, docsDir, stack).
      2 * card (fst ` set fs - stack)
      + (if readFile cwd fs filePath = None then 0 else 1))"

lemma readMeasure_decreases:
  assumes a: "readFile cwd fs filePath = Some raw"
      and r: "resolveRefPath cwd filePath rv docsDir = Some refPath"
      and ns: "refPath \<notin> stack"
  shows "readMeasure (cwd, fs, cache, refPath, docsDir, insert refPath stack)
         < readMeasure (cwd, fs, cache, filePath, docsDir, stack)"
proof (cases "readFile cwd fs refPath")
  case None
  have "card (fst ` set fs - insert refPath stack) \<le> card (fst ` set fs - stack)"
    by (rule card_mono) auto
  then show ?thesis using None a by (simp add: readMeasure_def)
next
  case (Some raw')
  have "map_of fs refPath = Some raw'"
    using Some resolveRefPath_resolved[OF r] by (simp add: readFile_def)
  then have "refPath \<in> fst ` set fs"
    by (metis map_of_SomeD fst_conv image_eqI)
  then have mem: "refPath \<in> fst ` set fs - stack" using ns by simp
  have eq: "fst ` set fs - insert refPath stack = (fst ` set fs - stack) - {refPath}"
    by auto
  have "card ((fst ` set fs - stack) - {refPath}) < card (fst ` set fs - stack)"
    by (rule card_Diff1_less) (use mem in simp_all)
  then have "card (fst ` set fs - insert refPath stack) < card (fst ` set fs - stack)"
    by (simp only: eq)
  then show ?thesis using a by (simp add: readMeasure_def)
qed

lemma readDocInfo_dom_tuple:
  "readDocInfo_dom (cwd, fs, cache, filePath, docsDir, stack)"
proof (induction "readMeasure (cwd, fs, cache, filePath, docsDir, stack)"
         arbitrary: filePath stack rule: less_induct)
  case less
  show ?case
  proof (rule readDocInfo.domintros)
    fix raw block refPath
    assume "readFile cwd fs filePath = Some raw"
      and "resolveRefPath cwd filePath (the (ref (parseBlock block))) docsDir = Some refPath"
      and "refPath \<notin> stack"
    then have "readMeasure (cwd, fs, cache, refPath, docsDir, insert refPath stack)
               < readMeasure (cwd, fs, cache, filePath, docsDir, stack)"
      by (rule readMeasure_decreases)
    then show "readDocInfo_dom (cwd, fs, cache, refPath, docsDir, insert refPath stack)"
      by (rule less)
  qed
qed

lemma readDocInfo_dom_all: "readDocInfo_dom x"
  by (cases x) (simp add: readDocInfo_dom_tuple)

termination readDocInfo
  using readDocInfo_dom_all by blast

declare readDocInfo.simps [simp del]

subsection \<open>The navigation configuration\<close>

record NavItem =
  label :: string
  to :: string
  badge :: "string option"

record FrameworkGroup =
  fw_label :: string
  fw_children :: "NavItem list"

record Section =
  sec_label :: string
  children :: "NavItem list"
  frameworks :: "FrameworkGroup list option"

text \<open>
  \<^verbatim>\<open>docSearch\<close> has type \<^verbatim>\<open>unknown\<close>: a type variable. Keys of the JSON object that
  the interface does not name are the extension part \<open>more\<close> of the record.
\<close>

record 'u DocsConfig =
  docSearch :: 'u
  sections :: "Section list"
  users :: "string list option"

record LabelMismatch =
  lm_to :: string
  existing :: string
  incoming :: string

record ChangeLog =
  added :: "string list"
  labelMismatch :: "LabelMismatch list"
  removed :: "string list"
  skipped :: "string list"
  missingFrontmatter :: "string list"
  unmatched :: "string list"
  missingFiles :: "string list"

definition emptyLog :: ChangeLog where
  "emptyLog = \<lparr>added = [], labelMismatch = [], removed = [], skipped = [],
                missingFrontmatter = [], unmatched = [], missingFiles = []\<rparr>"

text \<open>
  A \<^verbatim>\<open>Placement\<close> holds references to a section, to one of its arrays and, for a
  framework array, to the framework group. The arrays are mutated in place and never
  replaced, so a reference is modelled as the position of the section in
  \<^verbatim>\<open>config.sections\<close> and of the group in \<^verbatim>\<open>section.frameworks\<close>; the container is
  read and written through the configuration, which is the store.
\<close>

record Placement =
  sectionIx :: nat
  frameworkIx :: "nat option"

definition getContainer :: "('u, 'z) DocsConfig_scheme \<Rightarrow> Placement \<Rightarrow> NavItem list" where
  "getContainer config p =
     (let s = sections config ! sectionIx p
      in case frameworkIx p of
           None \<Rightarrow> children s
         | Some j \<Rightarrow> fw_children ((case frameworks s of Some fws \<Rightarrow> fws | None \<Rightarrow> []) ! j))"

definition setContainer ::
  "('u, 'z) DocsConfig_scheme \<Rightarrow> Placement \<Rightarrow> NavItem list \<Rightarrow> ('u, 'z) DocsConfig_scheme" where
  "setContainer config p c =
     (let s = sections config ! sectionIx p;
          s' = (case frameworkIx p of
                  None \<Rightarrow> s\<lparr>children := c\<rparr>
                | Some j \<Rightarrow>
                    s\<lparr>frameworks :=
                        map_option (\<lambda>fws. fws[j := (fws ! j)\<lparr>fw_children := c\<rparr>]) (frameworks s)\<rparr>)
      in config\<lparr>sections := (sections config)[sectionIx p := s']\<rparr>)"

record PlacementIndex =
  byRoute :: "string \<rightharpoonup> Placement"
  byDir :: "string \<rightharpoonup> Placement"

subsection \<open>The placement index\<close>

lemma lastIndexOf_less: "lastIndexOf c s = Some i \<Longrightarrow> i < length s"
  by (induction s arbitrary: i) (auto split: option.splits if_splits)

lemma parentRoute_shorter: "r \<noteq> [] \<Longrightarrow> length (parentRoute r) < length r"
  by (auto simp: parentRoute_def dest: lastIndexOf_less split: option.splits)

lemma parentRoute_Nil [simp]: "parentRoute [] = []"
  by (simp add: parentRoute_def)

text \<open>The \<^verbatim>\<open>while (current)\<close> loop of \<^verbatim>\<open>register\<close>.\<close>

function registerDirs ::
  "string \<Rightarrow> Placement \<Rightarrow> (string \<rightharpoonup> Placement) \<Rightarrow> (string \<rightharpoonup> Placement)" where
  "registerDirs current placement dirs =
     (if current = [] then dirs
      else (let dirs' = (if dirs current = None then dirs(current \<mapsto> placement) else dirs);
                parent = parentRoute current
            in if parent = [] \<or> parent = current then dirs'
               else registerDirs parent placement dirs'))"
  by pat_completeness auto
termination
  by (relation "measure (\<lambda>(current, placement, dirs). length current)")
     (simp_all add: parentRoute_shorter)

declare registerDirs.simps [simp del]

definition register :: "string \<Rightarrow> Placement \<Rightarrow> PlacementIndex \<Rightarrow> PlacementIndex" where
  "register route placement index =
     \<lparr>byRoute = (byRoute index)(route \<mapsto> placement),
      byDir = registerDirs route placement (byDir index)\<rparr>"

definition registerItems :: "NavItem list \<Rightarrow> Placement \<Rightarrow> PlacementIndex \<Rightarrow> PlacementIndex" where
  "registerItems items placement index =
     foldl (\<lambda>idx item. register (to item) placement idx) index items"

definition registerFrameworks ::
  "nat \<Rightarrow> FrameworkGroup list \<Rightarrow> PlacementIndex \<Rightarrow> PlacementIndex" where
  "registerFrameworks i fws index =
     foldl (\<lambda>idx j. registerItems (fw_children (fws ! j))
                        \<lparr>sectionIx = i, frameworkIx = Some j\<rparr> idx)
           index [0..<length fws]"

definition registerSection ::
  "('u, 'z) DocsConfig_scheme \<Rightarrow> PlacementIndex \<Rightarrow> nat \<Rightarrow> PlacementIndex" where
  "registerSection config index i =
     (let s = sections config ! i;
          index1 = registerItems (children s) \<lparr>sectionIx = i, frameworkIx = None\<rparr> index
      in case frameworks s of
           None \<Rightarrow> index1
         | Some fws \<Rightarrow> registerFrameworks i fws index1)"

definition buildPlacementIndex :: "('u, 'z) DocsConfig_scheme \<Rightarrow> PlacementIndex" where
  "buildPlacementIndex config =
     foldl (registerSection config) \<lparr>byRoute = Map.empty, byDir = Map.empty\<rparr>
           [0..<length (sections config)]"

text \<open>\<^verbatim>\<open>while (current !== undefined)\<close>: the empty route is looked up as well.\<close>

function findPlacement :: "string \<Rightarrow> PlacementIndex \<Rightarrow> Placement option" where
  "findPlacement current index =
     (case (case byRoute index current of Some p \<Rightarrow> Some p | None \<Rightarrow> byDir index current) of
        Some placement \<Rightarrow> Some placement
      | None \<Rightarrow>
          (let parent = parentRoute current
           in if parent = [] \<or> parent = current then None
              else findPlacement parent index))"
  by pat_completeness auto
termination
  by (relation "measure (\<lambda>(current, index). length current)")
     (auto intro: parentRoute_shorter)

declare findPlacement.simps [simp del]

subsection \<open>Insertion and pruning\<close>

definition ensureNavItem :: "NavItem list \<Rightarrow> NavItem \<Rightarrow> ChangeLog \<Rightarrow> NavItem list \<times> ChangeLog" where
  "ensureNavItem container item lg =
     (case find (\<lambda>entry. to entry = to item) container of
        Some found \<Rightarrow>
          (container,
           if label found \<noteq> label item
           then lg\<lparr>labelMismatch := labelMismatch lg
                  @ [\<lparr>lm_to = to item, existing = label found, incoming = label item\<rparr>]\<rparr>
           else lg)
      | None \<Rightarrow>
          (container @ [item], lg\<lparr>added := added lg @ [label item @ '' -> '' @ to item]\<rparr>))"

text \<open>The loop of \<^verbatim>\<open>removeSkipped\<close>, \<open>n\<close> being \<^verbatim>\<open>i + 1\<close>; it runs from the last index
  down, and \<^verbatim>\<open>splice(i, 1)\<close> removes the entry at \<^verbatim>\<open>i\<close>.\<close>

fun removeSkippedFrom ::
  "nat \<Rightarrow> NavItem list \<Rightarrow> string set \<Rightarrow> ChangeLog \<Rightarrow> NavItem list \<times> ChangeLog" where
  "removeSkippedFrom 0 container skipSet lg = (container, lg)"
| "removeSkippedFrom (Suc i) container skipSet lg =
     (let entry = container ! i
      in if to entry \<in> skipSet
         then removeSkippedFrom i (take i container @ drop (Suc i) container) skipSet
                (lg\<lparr>removed := removed lg @ [to entry]\<rparr>)
         else removeSkippedFrom i container skipSet lg)"

definition removeSkipped ::
  "NavItem list \<Rightarrow> string set \<Rightarrow> ChangeLog \<Rightarrow> NavItem list \<times> ChangeLog" where
  "removeSkipped container skipSet lg = removeSkippedFrom (length container) container skipSet lg"

definition pushUnique :: "string list \<Rightarrow> string \<Rightarrow> string list" where
  "pushUnique list v = (if v \<in> set list then list else list @ [v])"

subsection \<open>The reconciliation pass\<close>

text \<open>
  \<^verbatim>\<open>listContentFiles\<close> walks the directories below \<open>root\<close> with a work list, collects
  the regular files whose name ends in \<^verbatim>\<open>.md\<close> or \<^verbatim>\<open>.mdx\<close> under their joined paths and
  sorts them. On the flat file system these are the stored paths below \<open>root\<close> with such
  a name, sorted.
\<close>

definition listContentFiles :: "filesystem \<Rightarrow> string \<Rightarrow> string list" where
  "listContentFiles fs root =
     sort (filter (\<lambda>p. startsWith p (root @ ''/'')
                        \<and> (endsWith (basename p) ''.md'' \<or> endsWith (basename p) ''.mdx''))
                  (remdups (map fst fs)))"

text \<open>The state of the loop over the files: the configuration object, the log, the two
  route sets and the cache.\<close>

record ('u, 'z) PassState =
  st_config :: "('u, 'z) DocsConfig_scheme"
  st_log :: ChangeLog
  st_skipRoutes :: "string set"
  st_seenRoutes :: "string set"
  st_cache :: docInfoCache

definition recordMissingFrontmatter ::
  "string list \<Rightarrow> string \<Rightarrow> string \<Rightarrow> ('u, 'z) PassState \<Rightarrow> ('u, 'z) PassState" where
  "recordMissingFrontmatter cwd dir filePath st =
     st\<lparr>st_log := (st_log st)\<lparr>missingFrontmatter :=
            pushUnique (missingFrontmatter (st_log st)) (relative cwd dir filePath)\<rparr>\<rparr>"

text \<open>Lines 327 to 333: the file has a title and is not skipped.\<close>

definition placeFile ::
  "PlacementIndex \<Rightarrow> string \<Rightarrow> string \<Rightarrow> ('u, 'z) PassState \<Rightarrow> ('u, 'z) PassState" where
  "placeFile index route t st =
     (case findPlacement route index of
        None \<Rightarrow> st\<lparr>st_log := (st_log st)\<lparr>unmatched := pushUnique (unmatched (st_log st)) route\<rparr>\<rparr>
      | Some placement \<Rightarrow>
          (case ensureNavItem (getContainer (st_config st) placement)
                  \<lparr>label = trim t, to = route, badge = None\<rparr> (st_log st) of
             (c, lg) \<Rightarrow> st\<lparr>st_config := setContainer (st_config st) placement c, st_log := lg\<rparr>))"

text \<open>The body of the loop over the files, lines 305 to 333.\<close>

definition processFile ::
  "string list \<Rightarrow> filesystem \<Rightarrow> string \<Rightarrow> string \<Rightarrow> PlacementIndex
     \<Rightarrow> ('u, 'z) PassState \<Rightarrow> string \<Rightarrow> ('u, 'z) PassState" where
  "processFile cwd fs dir configPath index st filePath =
     (if filePath = configPath then st
      else
        (let fileName = basename filePath;
             route = routeFromFile cwd dir filePath;
             st1 = st\<lparr>st_seenRoutes := insert route (st_seenRoutes st)\<rparr>
         in if isReadme fileName \<or> isDraft fileName
            then st1\<lparr>st_skipRoutes := insert route (st_skipRoutes st1)\<rparr>
            else
              (case readDocInfo cwd fs (st_cache st1) filePath dir {} of
                 (frontmatter, cache') \<Rightarrow>
                   (let st2 = st1\<lparr>st_cache := cache'\<rparr>
                    in case frontmatter of
                         None \<Rightarrow> recordMissingFrontmatter cwd dir filePath st2
                       | Some fm \<Rightarrow>
                           (case title fm of
                              None \<Rightarrow> recordMissingFrontmatter cwd dir filePath st2
                            | Some t \<Rightarrow>
                                if t = [] then recordMissingFrontmatter cwd dir filePath st2
                                else if skip fm = Some True
                                then st2\<lparr>st_skipRoutes := insert route (st_skipRoutes st2),
                                         st_log := (st_log st2)\<lparr>skipped :=
                                            pushUnique (skipped (st_log st2)) route\<rparr>\<rparr>
                                else placeFile index route t st2)))))"

text \<open>Lines 336 to 343: the pruning of every container.\<close>

fun pruneFrameworks ::
  "string set \<Rightarrow> FrameworkGroup list \<Rightarrow> ChangeLog \<Rightarrow> FrameworkGroup list \<times> ChangeLog" where
  "pruneFrameworks skipSet [] lg = ([], lg)"
| "pruneFrameworks skipSet (fw # fws) lg =
     (case removeSkipped (fw_children fw) skipSet lg of
        (c, lg1) \<Rightarrow>
          (case pruneFrameworks skipSet fws lg1 of
             (fws', lg2) \<Rightarrow> (fw\<lparr>fw_children := c\<rparr> # fws', lg2)))"

definition pruneSection :: "string set \<Rightarrow> Section \<Rightarrow> ChangeLog \<Rightarrow> Section \<times> ChangeLog" where
  "pruneSection skipSet s lg =
     (case removeSkipped (children s) skipSet lg of
        (c, lg1) \<Rightarrow>
          (case frameworks s of
             None \<Rightarrow> (s\<lparr>children := c\<rparr>, lg1)
           | Some fws \<Rightarrow>
               (case pruneFrameworks skipSet fws lg1 of
                  (fws', lg2) \<Rightarrow> (s\<lparr>children := c, frameworks := Some fws'\<rparr>, lg2))))"

fun pruneSections :: "string set \<Rightarrow> Section list \<Rightarrow> ChangeLog \<Rightarrow> Section list \<times> ChangeLog" where
  "pruneSections skipSet [] lg = ([], lg)"
| "pruneSections skipSet (s # ss) lg =
     (case pruneSection skipSet s lg of
        (s', lg1) \<Rightarrow>
          (case pruneSections skipSet ss lg1 of
             (ss', lg2) \<Rightarrow> (s' # ss', lg2)))"

text \<open>Lines 345 to 360: the entries with no scanned file.\<close>

definition noteMissing :: "string set \<Rightarrow> string set \<Rightarrow> string list \<Rightarrow> NavItem \<Rightarrow> string list" where
  "noteMissing seen skipSet acc item =
     (if to item \<notin> seen \<and> to item \<notin> skipSet then pushUnique acc (to item) else acc)"

definition missingInSection :: "string set \<Rightarrow> string set \<Rightarrow> string list \<Rightarrow> Section \<Rightarrow> string list" where
  "missingInSection seen skipSet acc s =
     (let acc1 = foldl (noteMissing seen skipSet) acc (children s)
      in case frameworks s of
           None \<Rightarrow> acc1
         | Some fws \<Rightarrow>
             foldl (\<lambda>a fw. foldl (noteMissing seen skipSet) a (fw_children fw)) acc1 fws)"

definition initialState :: "('u, 'z) DocsConfig_scheme \<Rightarrow> docInfoCache \<Rightarrow> ('u, 'z) PassState" where
  "initialState config cache =
     \<lparr>st_config = config, st_log = emptyLog, st_skipRoutes = {}, st_seenRoutes = {},
      st_cache = cache\<rparr>"

text \<open>The loop over the files, from the state the pass starts in.\<close>

definition scanFiles ::
  "string list \<Rightarrow> filesystem \<Rightarrow> docInfoCache \<Rightarrow> string \<Rightarrow> ('u, 'z) DocsConfig_scheme
     \<Rightarrow> ('u, 'z) PassState" where
  "scanFiles cwd fs cache dir config =
     foldl (processFile cwd fs dir (join dir ''config.json'') (buildPlacementIndex config))
           (initialState config cache) (listContentFiles fs dir)"

text \<open>
  \<^verbatim>\<open>processDocsConfig(dir)\<close>. The argument \<open>config\<close> is the value \<^verbatim>\<open>readJson\<close> returns,
  the second component of the result is the value handed to \<^verbatim>\<open>writeJson\<close>, and the
  process-wide cache is passed in and returned.
\<close>

definition processDocsConfig ::
  "string list \<Rightarrow> filesystem \<Rightarrow> docInfoCache \<Rightarrow> string \<Rightarrow> ('u, 'z) DocsConfig_scheme
     \<Rightarrow> ChangeLog \<times> ('u, 'z) DocsConfig_scheme \<times> docInfoCache" where
  "processDocsConfig cwd fs cache dir config =
     (let st = scanFiles cwd fs cache dir config
      in case pruneSections (st_skipRoutes st) (sections (st_config st)) (st_log st) of
           (ss, lg) \<Rightarrow>
             (let config' = (st_config st)\<lparr>sections := ss\<rparr>;
                  lg' = lg\<lparr>missingFiles :=
                           foldl (missingInSection (st_seenRoutes st) (st_skipRoutes st))
                                 (missingFiles lg) ss\<rparr>
              in (lg', config', st_cache st)))"

subsection \<open>The configuration file as a JavaScript value\<close>

text \<open>
  \<^verbatim>\<open>readJson\<close> parses the text of \<^verbatim>\<open>config.json\<close> with \<^verbatim>\<open>JSON.parse\<close>, the pass works
  on the value it returns, and \<^verbatim>\<open>writeJson\<close> serialises that value with
  \<^verbatim>\<open>JSON.stringify(value, null, 2)\<close>. The records above have the fields of the
  interfaces and no order of keys; this part embeds the pass once more, on the value as
  the runtime has it, with its keys in their order. A JSON text is taken as its syntax tree,
  the members of an object in the order of the text, so white space and the spelling of
  numbers and strings are not represented. A number is the value the runtime reads, of a
  type \<open>'n\<close> that is left open: the pass never looks at one.
\<close>

datatype 'n json =
    JNull
  | JBool bool
  | JNum 'n
  | JStr string
  | JArr "'n json list"
  | JObj "(string \<times> 'n json) list"

text \<open>
  An object value holds its properties in the order of their creation.
  \<^verbatim>\<open>JSON.parse\<close> defines the members of an object in the order of the text; a key that
  occurs again keeps its place and takes the later value.
\<close>

fun createDataProperty :: "(string \<times> 'v) list \<Rightarrow> string \<times> 'v \<Rightarrow> (string \<times> 'v) list" where
  "createDataProperty [] m = [m]"
| "createDataProperty (p # ps) m =
     (if fst p = fst m then (fst p, snd m) # ps else p # createDataProperty ps m)"

primrec JSON_parse :: "'n json \<Rightarrow> 'n json" where
  "JSON_parse JNull = JNull"
| "JSON_parse (JBool b) = JBool b"
| "JSON_parse (JNum n) = JNum n"
| "JSON_parse (JStr s) = JStr s"
| "JSON_parse (JArr xs) = JArr (map JSON_parse xs)"
| "JSON_parse (JObj ms) = JObj (foldl createDataProperty [] (map (map_prod id JSON_parse) ms))"

text \<open>
  \<^verbatim>\<open>JSON.stringify\<close> writes the members of an object in the order of its own property
  keys: first the keys that are array indices (a decimal numeral without a leading zero
  and below \<open>2^32 - 1\<close>) in ascending numeric order, then the other keys in the order
  of their creation. A number is written as a numeral, and as \<^verbatim>\<open>null\<close> when it is not
  finite: \<open>num n\<close> is the number that the numeral written for \<open>n\<close> is read as, and
  \<open>None\<close> when \<^verbatim>\<open>null\<close> is written. Floating point is not modelled, so \<open>num\<close> is a
  parameter; for a finite number other than \<^verbatim>\<open>-0\<close> it gives the number itself.
\<close>

definition isDigit :: "char \<Rightarrow> bool" where
  "isDigit c = (CHR ''0'' \<le> c \<and> c \<le> CHR ''9'')"

definition decimalValue :: "string \<Rightarrow> int" where
  "decimalValue k = foldl (\<lambda>n c. 10 * n + (of_char c - 48)) 0 k"

definition isArrayIndex :: "string \<Rightarrow> bool" where
  "isArrayIndex k =
     (k \<noteq> [] \<and> list_all isDigit k \<and> (k = ''0'' \<or> hd k \<noteq> CHR ''0'')
      \<and> decimalValue k < 4294967295)"

definition ownProperties :: "(string \<times> 'v) list \<Rightarrow> (string \<times> 'v) list" where
  "ownProperties ps =
     sort_key (\<lambda>p. decimalValue (fst p)) (filter (\<lambda>p. isArrayIndex (fst p)) ps)
     @ filter (\<lambda>p. \<not> isArrayIndex (fst p)) ps"

primrec JSON_stringify :: "('n \<Rightarrow> 'n option) \<Rightarrow> 'n json \<Rightarrow> 'n json" where
  "JSON_stringify num JNull = JNull"
| "JSON_stringify num (JBool b) = JBool b"
| "JSON_stringify num (JNum n) = (case num n of None \<Rightarrow> JNull | Some m \<Rightarrow> JNum m)"
| "JSON_stringify num (JStr s) = JStr s"
| "JSON_stringify num (JArr xs) = JArr (map (JSON_stringify num) xs)"
| "JSON_stringify num (JObj ps) = JObj (ownProperties (map (map_prod id (JSON_stringify num)) ps))"

text \<open>Lines 64 to 72, on syntax trees: the indentation and the final newline that
  \<^verbatim>\<open>writeJson\<close> adds are white space.\<close>

definition readJson :: "'n json \<Rightarrow> 'n json" where
  "readJson document = JSON_parse document"

definition writeJson :: "('n \<Rightarrow> 'n option) \<Rightarrow> 'n json \<Rightarrow> 'n json" where
  "writeJson num v = JSON_stringify num v"

text \<open>
  Typed access to a value: \<^verbatim>\<open>v.key\<close> (\<open>None\<close> is \<^verbatim>\<open>undefined\<close>), the elements of an
  array and the characters of a string. On a value of the interface \<^verbatim>\<open>DocsConfig\<close>
  the cases for other values are never taken.
\<close>

definition getProp :: "'n json \<Rightarrow> string \<Rightarrow> 'n json option" where
  "getProp v k = (case v of JObj ps \<Rightarrow> map_of ps k | _ \<Rightarrow> None)"

definition arrayItems :: "'n json option \<Rightarrow> 'n json list" where
  "arrayItems v = (case v of Some (JArr xs) \<Rightarrow> xs | _ \<Rightarrow> [])"

definition stringValue :: "'n json option \<Rightarrow> string" where
  "stringValue v = (case v of Some (JStr s) \<Rightarrow> s | _ \<Rightarrow> [])"

definition entryTo :: "'n json \<Rightarrow> string" where
  "entryTo entry = stringValue (getProp entry ''to'')"

definition entryLabel :: "'n json \<Rightarrow> string" where
  "entryLabel entry = stringValue (getProp entry ''label'')"

definition sectionsJ :: "'n json \<Rightarrow> 'n json list" where
  "sectionsJ config = arrayItems (getProp config ''sections'')"

definition childrenJ :: "'n json \<Rightarrow> 'n json list" where
  "childrenJ s = arrayItems (getProp s ''children'')"

definition frameworksJ :: "'n json \<Rightarrow> 'n json list" where
  "frameworksJ s = arrayItems (getProp s ''frameworks'')"

text \<open>The object literal \<^verbatim>\<open>{ label: frontmatter.title.trim(), to: route }\<close> of line 333.\<close>

definition navItemJ :: "string \<Rightarrow> string \<Rightarrow> 'n json" where
  "navItemJ l r = JObj [(''label'', JStr l), (''to'', JStr r)]"

text \<open>
  Mutation in place: the value under a key of an object and the element at an index of
  an array are replaced where they are, and \<^verbatim>\<open>push\<close> and \<^verbatim>\<open>splice\<close> give an array new
  elements. The keys of the object and their order stay; an object value has every key
  once.
\<close>

definition updateProp :: "string \<Rightarrow> ('n json \<Rightarrow> 'n json) \<Rightarrow> 'n json \<Rightarrow> 'n json" where
  "updateProp k f v =
     (case v of
        JObj ps \<Rightarrow> JObj (map (\<lambda>p. if fst p = k then (fst p, f (snd p)) else p) ps)
      | _ \<Rightarrow> v)"

definition updateItem :: "nat \<Rightarrow> ('n json \<Rightarrow> 'n json) \<Rightarrow> 'n json \<Rightarrow> 'n json" where
  "updateItem i f v =
     (case v of
        JArr xs \<Rightarrow> (if i < length xs then JArr (xs[i := f (xs ! i)]) else v)
      | _ \<Rightarrow> v)"

definition replaceItems :: "'n json list \<Rightarrow> 'n json \<Rightarrow> 'n json" where
  "replaceItems c v = (case v of JArr xs \<Rightarrow> JArr c | _ \<Rightarrow> v)"

text \<open>The container a \<^verbatim>\<open>Placement\<close> refers to, read and written through the value.\<close>

definition getContainerJ :: "'n json \<Rightarrow> Placement \<Rightarrow> 'n json list" where
  "getContainerJ config p =
     (let s = sectionsJ config ! sectionIx p
      in case frameworkIx p of
           None \<Rightarrow> childrenJ s
         | Some j \<Rightarrow> childrenJ (frameworksJ s ! j))"

definition setContainerJ :: "'n json \<Rightarrow> Placement \<Rightarrow> 'n json list \<Rightarrow> 'n json" where
  "setContainerJ config p c =
     updateProp ''sections''
       (updateItem (sectionIx p)
          (case frameworkIx p of
             None \<Rightarrow> updateProp ''children'' (replaceItems c)
           | Some j \<Rightarrow>
               updateProp ''frameworks''
                 (updateItem j (updateProp ''children'' (replaceItems c)))))
       config"

text \<open>\<^verbatim>\<open>buildPlacementIndex\<close>; a section without the key \<^verbatim>\<open>frameworks\<close> has no groups.\<close>

definition registerItemsJ :: "'n json list \<Rightarrow> Placement \<Rightarrow> PlacementIndex \<Rightarrow> PlacementIndex" where
  "registerItemsJ items placement index =
     foldl (\<lambda>idx item. register (entryTo item) placement idx) index items"

definition registerFrameworksJ ::
  "nat \<Rightarrow> 'n json list \<Rightarrow> PlacementIndex \<Rightarrow> PlacementIndex" where
  "registerFrameworksJ i fws index =
     foldl (\<lambda>idx j. registerItemsJ (childrenJ (fws ! j))
                        \<lparr>sectionIx = i, frameworkIx = Some j\<rparr> idx)
           index [0..<length fws]"

definition registerSectionJ :: "'n json \<Rightarrow> PlacementIndex \<Rightarrow> nat \<Rightarrow> PlacementIndex" where
  "registerSectionJ config index i =
     (let s = sectionsJ config ! i;
          index1 = registerItemsJ (childrenJ s) \<lparr>sectionIx = i, frameworkIx = None\<rparr> index
      in registerFrameworksJ i (frameworksJ s) index1)"

definition buildPlacementIndexJ :: "'n json \<Rightarrow> PlacementIndex" where
  "buildPlacementIndexJ config =
     foldl (registerSectionJ config) \<lparr>byRoute = Map.empty, byDir = Map.empty\<rparr>
           [0..<length (sectionsJ config)]"

text \<open>\<^verbatim>\<open>ensureNavItem\<close> and \<^verbatim>\<open>removeSkipped\<close> on an array of entries.\<close>

definition ensureNavItemJ ::
  "'n json list \<Rightarrow> 'n json \<Rightarrow> ChangeLog \<Rightarrow> 'n json list \<times> ChangeLog" where
  "ensureNavItemJ container item lg =
     (case find (\<lambda>entry. entryTo entry = entryTo item) container of
        Some found \<Rightarrow>
          (container,
           if entryLabel found \<noteq> entryLabel item
           then lg\<lparr>labelMismatch := labelMismatch lg
                  @ [\<lparr>lm_to = entryTo item, existing = entryLabel found,
                       incoming = entryLabel item\<rparr>]\<rparr>
           else lg)
      | None \<Rightarrow>
          (container @ [item],
           lg\<lparr>added := added lg @ [entryLabel item @ '' -> '' @ entryTo item]\<rparr>))"

fun removeSkippedFromJ ::
  "nat \<Rightarrow> 'n json list \<Rightarrow> string set \<Rightarrow> ChangeLog \<Rightarrow> 'n json list \<times> ChangeLog" where
  "removeSkippedFromJ 0 container skipSet lg = (container, lg)"
| "removeSkippedFromJ (Suc i) container skipSet lg =
     (let entry = container ! i
      in if entryTo entry \<in> skipSet
         then removeSkippedFromJ i (take i container @ drop (Suc i) container) skipSet
                (lg\<lparr>removed := removed lg @ [entryTo entry]\<rparr>)
         else removeSkippedFromJ i container skipSet lg)"

definition removeSkippedJ ::
  "'n json list \<Rightarrow> string set \<Rightarrow> ChangeLog \<Rightarrow> 'n json list \<times> ChangeLog" where
  "removeSkippedJ container skipSet lg =
     removeSkippedFromJ (length container) container skipSet lg"

text \<open>The state of the loop over the files, and its body.\<close>

record 'n ValueState =
  vs_config :: "'n json"
  vs_log :: ChangeLog
  vs_skipRoutes :: "string set"
  vs_seenRoutes :: "string set"
  vs_cache :: docInfoCache

definition placeFileJ ::
  "PlacementIndex \<Rightarrow> string \<Rightarrow> string \<Rightarrow> 'n ValueState \<Rightarrow> 'n ValueState" where
  "placeFileJ index route t st =
     (case findPlacement route index of
        None \<Rightarrow> st\<lparr>vs_log := (vs_log st)\<lparr>unmatched := pushUnique (unmatched (vs_log st)) route\<rparr>\<rparr>
      | Some placement \<Rightarrow>
          (case ensureNavItemJ (getContainerJ (vs_config st) placement)
                  (navItemJ (trim t) route) (vs_log st) of
             (c, lg) \<Rightarrow> st\<lparr>vs_config := setContainerJ (vs_config st) placement c, vs_log := lg\<rparr>))"

definition processFileJ ::
  "string list \<Rightarrow> filesystem \<Rightarrow> string \<Rightarrow> string \<Rightarrow> PlacementIndex
     \<Rightarrow> 'n ValueState \<Rightarrow> string \<Rightarrow> 'n ValueState" where
  "processFileJ cwd fs dir configPath index st filePath =
     (if filePath = configPath then st
      else
        (let fileName = basename filePath;
             route = routeFromFile cwd dir filePath;
             st1 = st\<lparr>vs_seenRoutes := insert route (vs_seenRoutes st)\<rparr>
         in if isReadme fileName \<or> isDraft fileName
            then st1\<lparr>vs_skipRoutes := insert route (vs_skipRoutes st1)\<rparr>
            else
              (case readDocInfo cwd fs (vs_cache st1) filePath dir {} of
                 (frontmatter, cache') \<Rightarrow>
                   (let st2 = st1\<lparr>vs_cache := cache'\<rparr>;
                        missing = st2\<lparr>vs_log := (vs_log st2)\<lparr>missingFrontmatter :=
                            pushUnique (missingFrontmatter (vs_log st2))
                              (relative cwd dir filePath)\<rparr>\<rparr>
                    in case frontmatter of
                         None \<Rightarrow> missing
                       | Some fm \<Rightarrow>
                           (case title fm of
                              None \<Rightarrow> missing
                            | Some t \<Rightarrow>
                                if t = [] then missing
                                else if skip fm = Some True
                                then st2\<lparr>vs_skipRoutes := insert route (vs_skipRoutes st2),
                                         vs_log := (vs_log st2)\<lparr>skipped :=
                                            pushUnique (skipped (vs_log st2)) route\<rparr>\<rparr>
                                else placeFileJ index route t st2)))))"

text \<open>
  Lines 336 to 343 visit the children array of every section, each followed by those of
  its groups. \<^verbatim>\<open>removeSkipped\<close> changes only the array it is given, so the arrays of
  sections and groups that the two loops run over are the same before and after.
\<close>

definition placementsJ :: "'n json \<Rightarrow> Placement list" where
  "placementsJ config =
     concat (map (\<lambda>i. \<lparr>sectionIx = i, frameworkIx = None\<rparr>
                      # map (\<lambda>j. \<lparr>sectionIx = i, frameworkIx = Some j\<rparr>)
                            [0..<length (frameworksJ (sectionsJ config ! i))])
                 [0..<length (sectionsJ config)])"

definition pruneAt ::
  "string set \<Rightarrow> 'n json \<times> ChangeLog \<Rightarrow> Placement \<Rightarrow> 'n json \<times> ChangeLog" where
  "pruneAt skipSet state placement =
     (case removeSkippedJ (getContainerJ (fst state) placement) skipSet (snd state) of
        (c, lg) \<Rightarrow> (setContainerJ (fst state) placement c, lg))"

text \<open>Lines 345 to 360.\<close>

definition noteMissingJ :: "string set \<Rightarrow> string set \<Rightarrow> string list \<Rightarrow> 'n json \<Rightarrow> string list" where
  "noteMissingJ seen skipSet acc item =
     (if entryTo item \<notin> seen \<and> entryTo item \<notin> skipSet then pushUnique acc (entryTo item)
      else acc)"

definition missingInSectionJ ::
  "string set \<Rightarrow> string set \<Rightarrow> string list \<Rightarrow> 'n json \<Rightarrow> string list" where
  "missingInSectionJ seen skipSet acc s =
     foldl (\<lambda>a fw. foldl (noteMissingJ seen skipSet) a (childrenJ fw))
           (foldl (noteMissingJ seen skipSet) acc (childrenJ s)) (frameworksJ s)"

text \<open>
  \<^verbatim>\<open>processDocsConfig\<close> on the value \<^verbatim>\<open>readJson\<close> returns, and with the reading and the
  writing of the file.
\<close>

definition scanFilesJ ::
  "string list \<Rightarrow> filesystem \<Rightarrow> docInfoCache \<Rightarrow> string \<Rightarrow> 'n json \<Rightarrow> 'n ValueState" where
  "scanFilesJ cwd fs cache dir config =
     foldl (processFileJ cwd fs dir (join dir ''config.json'') (buildPlacementIndexJ config))
           \<lparr>vs_config = config, vs_log = emptyLog, vs_skipRoutes = {}, vs_seenRoutes = {},
            vs_cache = cache\<rparr>
           (listContentFiles fs dir)"

definition processDocsConfigJ ::
  "string list \<Rightarrow> filesystem \<Rightarrow> docInfoCache \<Rightarrow> string \<Rightarrow> 'n json
     \<Rightarrow> ChangeLog \<times> 'n json \<times> docInfoCache" where
  "processDocsConfigJ cwd fs cache dir config =
     (let st = scanFilesJ cwd fs cache dir config
      in case foldl (pruneAt (vs_skipRoutes st)) (vs_config st, vs_log st)
                    (placementsJ (vs_config st)) of
           (config', lg) \<Rightarrow>
             (lg\<lparr>missingFiles :=
                   foldl (missingInSectionJ (vs_seenRoutes st) (vs_skipRoutes st))
                         (missingFiles lg) (sectionsJ config')\<rparr>,
              config', vs_cache st))"

definition processDocsConfigFile ::
  "('n \<Rightarrow> 'n option) \<Rightarrow> string list \<Rightarrow> filesystem \<Rightarrow> docInfoCache \<Rightarrow> string \<Rightarrow> 'n json
     \<Rightarrow> ChangeLog \<times> 'n json \<times> docInfoCache" where
  "processDocsConfigFile num cwd fs cache dir document =
     (case processDocsConfigJ cwd fs cache dir (readJson document) of
        (lg, config', cache') \<Rightarrow> (lg, writeJson num config', cache'))"

section \<open>Notions used in the statements\<close>

subsection \<open>Containers of a configuration\<close>

text \<open>The framework groups of a section (none when the key is absent), and the part of a
  section a placement addresses, read and written.\<close>

definition fwList :: "Section \<Rightarrow> FrameworkGroup list" where
  "fwList s = (case frameworks s of Some fws \<Rightarrow> fws | None \<Rightarrow> [])"

definition secGet :: "Section \<Rightarrow> nat option \<Rightarrow> NavItem list" where
  "secGet s fo = (case fo of None \<Rightarrow> children s | Some j \<Rightarrow> fw_children (fwList s ! j))"

definition secSet :: "Section \<Rightarrow> nat option \<Rightarrow> NavItem list \<Rightarrow> Section" where
  "secSet s fo c =
     (case fo of
        None \<Rightarrow> s\<lparr>children := c\<rparr>
      | Some j \<Rightarrow> s\<lparr>frameworks :=
                    map_option (\<lambda>fws. fws[j := (fws ! j)\<lparr>fw_children := c\<rparr>]) (frameworks s)\<rparr>)"

text \<open>A placement that addresses a container the configuration has.\<close>

definition secValid :: "Section \<Rightarrow> nat option \<Rightarrow> bool" where
  "secValid s fo = (case fo of None \<Rightarrow> True | Some j \<Rightarrow> j < length (fwList s))"

definition validPlacement :: "('u, 'z) DocsConfig_scheme \<Rightarrow> Placement \<Rightarrow> bool" where
  "validPlacement config p =
     (sectionIx p < length (sections config)
      \<and> secValid (sections config ! sectionIx p) (frameworkIx p))"

text \<open>A configuration with every children array emptied: what it keeps is everything the
  pass does not own.\<close>

definition eraseSection :: "Section \<Rightarrow> Section" where
  "eraseSection s =
     s\<lparr>children := [],
       frameworks := map_option (map (\<lambda>fw. fw\<lparr>fw_children := []\<rparr>)) (frameworks s)\<rparr>"

definition eraseChildren :: "('u, 'z) DocsConfig_scheme \<Rightarrow> ('u, 'z) DocsConfig_scheme" where
  "eraseChildren config = config\<lparr>sections := map eraseSection (sections config)\<rparr>"

text \<open>All containers in the order of the sections, the children of a section before
  those of its groups; and the invariant that no container has two entries of one
  route.\<close>

definition containers :: "('u, 'z) DocsConfig_scheme \<Rightarrow> NavItem list list" where
  "containers config =
     concat (map (\<lambda>s. children s # map fw_children (fwList s)) (sections config))"

definition uniqueRoutes :: "('u, 'z) DocsConfig_scheme \<Rightarrow> bool" where
  "uniqueRoutes config = list_all (\<lambda>c. distinct (map to c)) (containers config)"

text \<open>What \<^verbatim>\<open>removeSkipped\<close> leaves of a container and what it logs, and the same for a
  group, a section and the configuration.\<close>

definition keepEntries :: "string set \<Rightarrow> NavItem list \<Rightarrow> NavItem list" where
  "keepEntries skipSet c = filter (\<lambda>e. to e \<notin> skipSet) c"

definition removedRoutes :: "string set \<Rightarrow> NavItem list \<Rightarrow> string list" where
  "removedRoutes skipSet c = rev (filter (\<lambda>r. r \<in> skipSet) (map to c))"

definition pruneFw :: "string set \<Rightarrow> FrameworkGroup \<Rightarrow> FrameworkGroup" where
  "pruneFw skipSet fw = fw\<lparr>fw_children := keepEntries skipSet (fw_children fw)\<rparr>"

definition pruneSec :: "string set \<Rightarrow> Section \<Rightarrow> Section" where
  "pruneSec skipSet s =
     s\<lparr>children := keepEntries skipSet (children s),
       frameworks := map_option (map (pruneFw skipSet)) (frameworks s)\<rparr>"

definition removedInSection :: "string set \<Rightarrow> Section \<Rightarrow> string list" where
  "removedInSection skipSet s =
     removedRoutes skipSet (children s)
     @ concat (map (\<lambda>fw. removedRoutes skipSet (fw_children fw)) (fwList s))"

definition prunedConfig :: "string set \<Rightarrow> ('u, 'z) DocsConfig_scheme \<Rightarrow> ('u, 'z) DocsConfig_scheme" where
  "prunedConfig skipSet config = config\<lparr>sections := map (pruneSec skipSet) (sections config)\<rparr>"

text \<open>Successive runs of the synchronizer on one root, each with the file system and the
  cache it finds.\<close>

fun runPasses ::
  "string list \<Rightarrow> string \<Rightarrow> (filesystem \<times> docInfoCache) list \<Rightarrow> ('u, 'z) DocsConfig_scheme
     \<Rightarrow> ('u, 'z) DocsConfig_scheme" where
  "runPasses cwd dir [] config = config"
| "runPasses cwd dir (env # envs) config =
     runPasses cwd dir envs (fst (snd (processDocsConfig cwd (fst env) (snd env) dir config)))"

subsection \<open>A step of the loop\<close>

text \<open>What \<^verbatim>\<open>readDocInfo\<close> returns for a file in a state of the loop, the state after that
  read, and the title and the skip flag as the loop tests them.\<close>

definition fileInfo ::
  "string list \<Rightarrow> filesystem \<Rightarrow> string \<Rightarrow> ('u, 'z) PassState \<Rightarrow> string
     \<Rightarrow> FrontmatterInfo option" where
  "fileInfo cwd fs dir st filePath = fst (readDocInfo cwd fs (st_cache st) filePath dir {})"

definition afterRead ::
  "string list \<Rightarrow> filesystem \<Rightarrow> string \<Rightarrow> ('u, 'z) PassState \<Rightarrow> string
     \<Rightarrow> ('u, 'z) PassState" where
  "afterRead cwd fs dir st filePath =
     st\<lparr>st_seenRoutes := insert (routeFromFile cwd dir filePath) (st_seenRoutes st),
        st_cache := snd (readDocInfo cwd fs (st_cache st) filePath dir {})\<rparr>"

definition resolvedTitle :: "FrontmatterInfo option \<Rightarrow> string" where
  "resolvedTitle fm = (case fm of None \<Rightarrow> [] | Some i \<Rightarrow> (case title i of None \<Rightarrow> [] | Some t \<Rightarrow> t))"

definition resolvedSkip :: "FrontmatterInfo option \<Rightarrow> bool" where
  "resolvedSkip fm = (case fm of None \<Rightarrow> False | Some i \<Rightarrow> skip i = Some True)"

text \<open>The state of the loop after the files \<open>files\<close>.\<close>

definition loopState ::
  "string list \<Rightarrow> filesystem \<Rightarrow> docInfoCache \<Rightarrow> string \<Rightarrow> ('u, 'z) DocsConfig_scheme
     \<Rightarrow> string list \<Rightarrow> ('u, 'z) PassState" where
  "loopState cwd fs cache dir config files =
     foldl (processFile cwd fs dir (join dir ''config.json'') (buildPlacementIndex config))
           (initialState config cache) files"

subsection \<open>Ancestor routes and the order of registration\<close>

text \<open>The routes the loop of \<^verbatim>\<open>register\<close> visits from \<open>current\<close>: the route itself and its
  parents, as long as they are not empty.\<close>

function ancestorRoutes :: "string \<Rightarrow> string list" where
  "ancestorRoutes current =
     (if current = [] then []
      else current # (let parent = parentRoute current
                      in if parent = [] \<or> parent = current then []
                         else ancestorRoutes parent))"
  by pat_completeness auto
termination
  by (relation "measure length") (simp_all add: parentRoute_shorter)

declare ancestorRoutes.simps [simp del]

text \<open>The calls of \<^verbatim>\<open>register\<close> that \<^verbatim>\<open>buildPlacementIndex\<close> makes, in their order.\<close>

definition sectionRegistrations :: "nat \<Rightarrow> Section \<Rightarrow> (string \<times> Placement) list" where
  "sectionRegistrations i s =
     map (\<lambda>item. (to item, \<lparr>sectionIx = i, frameworkIx = None\<rparr>)) (children s)
     @ concat (map (\<lambda>j. map (\<lambda>item. (to item, \<lparr>sectionIx = i, frameworkIx = Some j\<rparr>))
                            (fw_children (fwList s ! j)))
                   [0..<length (fwList s)])"

definition registrations :: "('u, 'z) DocsConfig_scheme \<Rightarrow> (string \<times> Placement) list" where
  "registrations config =
     concat (map (\<lambda>i. sectionRegistrations i (sections config ! i))
                 [0..<length (sections config)])"

definition registerAll :: "(string \<times> Placement) list \<Rightarrow> PlacementIndex \<Rightarrow> PlacementIndex" where
  "registerAll regs index = foldl (\<lambda>idx rp. register (fst rp) (snd rp) idx) index regs"

text \<open>
  The container \<^verbatim>\<open>findPlacement\<close> gives a route \<open>r\<close> that has no entry: the container of
  the first registered entry below \<open>r\<close>, one with \<open>r\<close> among its ancestor routes, and
  the given container when there is none.
\<close>

definition placementBelow ::
  "('u, 'z) DocsConfig_scheme \<Rightarrow> string \<Rightarrow> Placement \<Rightarrow> Placement" where
  "placementBelow config r plp =
     (case find (\<lambda>rp. r \<in> set (ancestorRoutes (fst rp))) (registrations config) of
        Some rp \<Rightarrow> snd rp
      | None \<Rightarrow> plp)"

subsection \<open>What the pass knows about a file\<close>

text \<open>The information the cache holds for a file, and the files whose route the pass
  puts into the skip-eligible set: readme files, drafts, and files with a resolved
  non-empty title whose resolved skip flag is true.\<close>

definition cachedInfo :: "docInfoCache \<Rightarrow> string list \<Rightarrow> string \<Rightarrow> FrontmatterInfo option" where
  "cachedInfo cache cwd filePath =
     (case cache (resolve cwd [filePath]) of Some i \<Rightarrow> i | None \<Rightarrow> None)"

definition skipEligible :: "string list \<Rightarrow> docInfoCache \<Rightarrow> string \<Rightarrow> bool" where
  "skipEligible cwd cache filePath =
     (isReadme (basename filePath) \<or> isDraft (basename filePath)
      \<or> (resolvedTitle (cachedInfo cache cwd filePath) \<noteq> []
          \<and> resolvedSkip (cachedInfo cache cwd filePath)))"

text \<open>A file the pass places: not a readme, not a draft, with a resolved non-empty title
  and not skipped.\<close>

definition placeable :: "string list \<Rightarrow> docInfoCache \<Rightarrow> string \<Rightarrow> bool" where
  "placeable cwd cache filePath =
     (\<not> isReadme (basename filePath) \<and> \<not> isDraft (basename filePath)
      \<and> resolvedTitle (cachedInfo cache cwd filePath) \<noteq> []
      \<and> \<not> resolvedSkip (cachedInfo cache cwd filePath))"

text \<open>A file the pass records under \<^verbatim>\<open>missingFrontmatter\<close>: not a readme, not a draft, and
  without a resolved non-empty title.\<close>

definition titleless :: "string list \<Rightarrow> docInfoCache \<Rightarrow> string \<Rightarrow> bool" where
  "titleless cwd cache filePath =
     (\<not> isReadme (basename filePath) \<and> \<not> isDraft (basename filePath)
      \<and> resolvedTitle (cachedInfo cache cwd filePath) = [])"

text \<open>The same tests on the information read in a state of the loop.\<close>

definition skipsNow ::
  "string list \<Rightarrow> filesystem \<Rightarrow> string \<Rightarrow> ('u, 'z) PassState \<Rightarrow> string \<Rightarrow> bool" where
  "skipsNow cwd fs dir st f =
     (isReadme (basename f) \<or> isDraft (basename f)
      \<or> (resolvedTitle (fileInfo cwd fs dir st f) \<noteq> [] \<and> resolvedSkip (fileInfo cwd fs dir st f)))"

definition placesNow ::
  "string list \<Rightarrow> filesystem \<Rightarrow> string \<Rightarrow> ('u, 'z) PassState \<Rightarrow> string \<Rightarrow> bool" where
  "placesNow cwd fs dir st f =
     (\<not> isReadme (basename f) \<and> \<not> isDraft (basename f)
      \<and> resolvedTitle (fileInfo cwd fs dir st f) \<noteq> []
      \<and> \<not> resolvedSkip (fileInfo cwd fs dir st f))"

definition lacksTitleNow ::
  "string list \<Rightarrow> filesystem \<Rightarrow> string \<Rightarrow> ('u, 'z) PassState \<Rightarrow> string \<Rightarrow> bool" where
  "lacksTitleNow cwd fs dir st f =
     (\<not> isReadme (basename f) \<and> \<not> isDraft (basename f)
      \<and> resolvedTitle (fileInfo cwd fs dir st f) = [])"

text \<open>A configuration that differs from another one only by entries appended to its
  containers, each without a badge and with a route of the given set.\<close>

definition grows ::
  "string set \<Rightarrow> ('u, 'z) DocsConfig_scheme \<Rightarrow> ('u, 'z) DocsConfig_scheme \<Rightarrow> bool" where
  "grows routes config config' =
     (eraseChildren config' = eraseChildren config
      \<and> (\<forall>pl. validPlacement config pl \<longrightarrow>
            (\<exists>extra. getContainer config' pl = getContainer config pl @ extra
                     \<and> (\<forall>e \<in> set extra. badge e = None \<and> to e \<in> routes))))"

text \<open>The entries of all containers of a section.\<close>

definition entriesOf :: "Section \<Rightarrow> NavItem set" where
  "entriesOf s = set (children s) \<union> (\<Union>fw \<in> set (fwList s). set (fw_children fw))"

text \<open>Two states of the loop that agree on what depends on the files alone.\<close>

definition sameFiles :: "('u, 'z) PassState \<Rightarrow> ('v, 'y) PassState \<Rightarrow> bool" where
  "sameFiles st st' =
     (st_cache st = st_cache st' \<and> st_skipRoutes st = st_skipRoutes st'
      \<and> st_seenRoutes st = st_seenRoutes st')"

text \<open>A route the index has no placement for, or one whose placement holds an entry of
  it already: placing a file with this route appends nothing.\<close>

definition present ::
  "PlacementIndex \<Rightarrow> ('u, 'z) DocsConfig_scheme \<Rightarrow> string \<Rightarrow> bool" where
  "present index config r =
     (case findPlacement r index of
        None \<Rightarrow> True
      | Some pl \<Rightarrow> r \<in> to ` set (getContainer config pl))"

text \<open>A route for which \<^verbatim>\<open>findPlacement\<close> finds a placement in the index of entries with
  the routes \<open>R\<close>: the route is one of them, or shares an ancestor route with one.\<close>

definition reach :: "string set \<Rightarrow> string \<Rightarrow> bool" where
  "reach R r =
     (r \<in> R \<or> (\<exists>x \<in> set (ancestorRoutes r). \<exists>r' \<in> R. x \<in> set (ancestorRoutes r')))"

subsection \<open>Containers of the JavaScript value\<close>

text \<open>
  A placement that addresses an array of the value, and the value with every children
  array emptied: what it keeps, with the order of all keys, is everything the pass does
  not own.
\<close>

definition isArray :: "'n json option \<Rightarrow> bool" where
  "isArray v = (case v of Some (JArr xs) \<Rightarrow> True | _ \<Rightarrow> False)"

definition validJ :: "'n json \<Rightarrow> Placement \<Rightarrow> bool" where
  "validJ config p =
     (sectionIx p < length (sectionsJ config)
      \<and> (let s = sectionsJ config ! sectionIx p
         in case frameworkIx p of
              None \<Rightarrow> isArray (getProp s ''children'')
            | Some j \<Rightarrow> j < length (frameworksJ s)
                        \<and> isArray (getProp (frameworksJ s ! j) ''children'')))"

definition mapItems :: "('n json \<Rightarrow> 'n json) \<Rightarrow> 'n json \<Rightarrow> 'n json" where
  "mapItems f v = (case v of JArr xs \<Rightarrow> JArr (map f xs) | _ \<Rightarrow> v)"

definition eraseGroupJ :: "'n json \<Rightarrow> 'n json" where
  "eraseGroupJ g = updateProp ''children'' (replaceItems []) g"

definition eraseSectionJ :: "'n json \<Rightarrow> 'n json" where
  "eraseSectionJ s =
     updateProp ''frameworks'' (mapItems eraseGroupJ) (updateProp ''children'' (replaceItems []) s)"

definition eraseChildrenJ :: "'n json \<Rightarrow> 'n json" where
  "eraseChildrenJ config = updateProp ''sections'' (mapItems eraseSectionJ) config"

text \<open>What \<^verbatim>\<open>removeSkipped\<close> leaves of a container, an entry as the pass creates it, and
  the keys of an object in their order.\<close>

definition keepJ :: "string set \<Rightarrow> 'n json list \<Rightarrow> 'n json list" where
  "keepJ skipSet c = filter (\<lambda>e. entryTo e \<notin> skipSet) c"

definition isNewEntry :: "'n json \<Rightarrow> bool" where
  "isNewEntry e = (e = navItemJ (entryLabel e) (entryTo e))"

definition keysOf :: "'n json \<Rightarrow> string list" where
  "keysOf v = (case v of JObj ps \<Rightarrow> map fst ps | _ \<Rightarrow> [])"

text \<open>
  A value of the interface \<^verbatim>\<open>DocsConfig\<close>, as far as the pass reads it: an array of
  sections, each with an array of entries under \<^verbatim>\<open>children\<close> and, when the key is there,
  an array of groups under \<^verbatim>\<open>frameworks\<close>, every entry with a string under
  \<^verbatim>\<open>label\<close> and under \<^verbatim>\<open>to\<close>.
\<close>

definition isString :: "'n json option \<Rightarrow> bool" where
  "isString v = (case v of Some (JStr s) \<Rightarrow> True | _ \<Rightarrow> False)"

definition isNavItem :: "'n json \<Rightarrow> bool" where
  "isNavItem e = (isString (getProp e ''label'') \<and> isString (getProp e ''to''))"

definition isContainer :: "'n json option \<Rightarrow> bool" where
  "isContainer v = (isArray v \<and> list_all isNavItem (arrayItems v))"

definition isFrameworkGroup :: "'n json \<Rightarrow> bool" where
  "isFrameworkGroup g = isContainer (getProp g ''children'')"

definition isSection :: "'n json \<Rightarrow> bool" where
  "isSection s =
     (isContainer (getProp s ''children'')
      \<and> (case getProp s ''frameworks'' of
            None \<Rightarrow> True
          | Some fws \<Rightarrow> isArray (Some fws) \<and> list_all isFrameworkGroup (arrayItems (Some fws))))"

definition conforms :: "'n json \<Rightarrow> bool" where
  "conforms config = (isArray (getProp config ''sections'') \<and> list_all isSection (sectionsJ config))"

text \<open>
  A JSON text in which no object has a key twice or a key that is an array index, and
  every number is written back as the number it is: the texts that \<^verbatim>\<open>JSON.parse\<close> and
  \<^verbatim>\<open>JSON.stringify\<close> give back as they are.
\<close>

primrec plainText :: "('n \<Rightarrow> 'n option) \<Rightarrow> 'n json \<Rightarrow> bool" where
  "plainText num JNull = True"
| "plainText num (JBool b) = True"
| "plainText num (JNum n) = (num n = Some n)"
| "plainText num (JStr s) = True"
| "plainText num (JArr xs) = list_all id (map (plainText num) xs)"
| "plainText num (JObj ms) =
     (distinct (map fst ms) \<and> list_all (\<lambda>m. \<not> isArrayIndex (fst m)) ms
      \<and> list_all snd (map (map_prod id (plainText num)) ms))"

text \<open>The part of a section a placement addresses, and one step of the pruning.\<close>

definition secGetJ :: "'n json \<Rightarrow> nat option \<Rightarrow> 'n json list" where
  "secGetJ s fo = (case fo of None \<Rightarrow> childrenJ s | Some j \<Rightarrow> childrenJ (frameworksJ s ! j))"

definition secSetJ :: "'n json \<Rightarrow> nat option \<Rightarrow> 'n json list \<Rightarrow> 'n json" where
  "secSetJ s fo c =
     (case fo of
        None \<Rightarrow> updateProp ''children'' (replaceItems c) s
      | Some j \<Rightarrow> updateProp ''frameworks''
                    (updateItem j (updateProp ''children'' (replaceItems c))) s)"

definition secValidJ :: "'n json \<Rightarrow> nat option \<Rightarrow> bool" where
  "secValidJ s fo =
     (case fo of
        None \<Rightarrow> isArray (getProp s ''children'')
      | Some j \<Rightarrow> j < length (frameworksJ s)
                  \<and> isArray (getProp (frameworksJ s ! j) ''children''))"

definition pruneStep :: "string set \<Rightarrow> 'n json \<Rightarrow> Placement \<Rightarrow> 'n json" where
  "pruneStep skipSet config pl = setContainerJ config pl (keepJ skipSet (getContainerJ config pl))"

text \<open>A value that differs from another one only by entries appended to its containers,
  each as the pass creates it.\<close>

definition growsJ :: "'n json \<Rightarrow> 'n json \<Rightarrow> bool" where
  "growsJ v v' =
     (eraseChildrenJ v' = eraseChildrenJ v
      \<and> (\<forall>pl. validJ v' pl = validJ v pl)
      \<and> (\<forall>pl. validJ v pl \<longrightarrow>
            (\<exists>extra. getContainerJ v' pl = getContainerJ v pl @ extra
                     \<and> (\<forall>e \<in> set extra. isNewEntry e))))"

subsection \<open>Example data\<close>

text \<open>A content file with the header block \<open>b\<close>, and a small root \<^verbatim>\<open>/r/docs/x\<close> of a
  repository at \<^verbatim>\<open>/r\<close>.\<close>

definition doc :: "string \<Rightarrow> string" where
  "doc b = ''---'' @ [nl] @ b @ [nl] @ ''---'' @ [nl] @ ''text''"

definition exCwd :: "string list" where
  "exCwd = [''r'']"

definition exDir :: string where
  "exDir = ''/r/docs/x''"

definition navItem :: "string \<Rightarrow> string \<Rightarrow> NavItem" where
  "navItem l r = \<lparr>label = l, to = r, badge = None\<rparr>"

definition exConfig :: "NavItem list \<Rightarrow> NavItem list \<Rightarrow> unit DocsConfig" where
  "exConfig c0 c1 =
     \<lparr>docSearch = (),
      sections = [\<lparr>sec_label = ''Guide'', children = c0, frameworks = None\<rparr>,
                  \<lparr>sec_label = ''Api'', children = c1, frameworks = None\<rparr>],
      users = None\<rparr>"

text \<open>Two files that refer to each other.\<close>

definition cycleFs :: filesystem where
  "cycleFs = [(''/r/docs/x/a.md'', doc ''ref: ./b.md''),
              (''/r/docs/x/b.md'', doc ''ref: ./a.md'')]"

text \<open>A file that only refers to another one, which has a title and is skipped.\<close>

definition refFs :: filesystem where
  "refFs = [(''/r/docs/x/a/page.md'', doc ''ref: ./other.md''),
            (''/r/docs/x/a/other.md'', doc (''title: Foo'' @ [nl] @ ''skip: true''))]"

text \<open>A file whose title is the empty string in quotes.\<close>

definition emptyTitleFs :: filesystem where
  "emptyTitleFs = [(''/r/docs/x/a/b/c.md'', doc (''title: '' @ [dq, dq]))]"

text \<open>A root with a page below \<^verbatim>\<open>a/b\<close>, a skipped page with a title, a page with the skip
  flag but no title, and a readme.\<close>

definition passFs :: filesystem where
  "passFs = [(''/r/docs/x/a/b/c.md'', doc ''title: C''),
             (''/r/docs/x/a/s.md'', doc (''title: S'' @ [nl] @ ''skip: true'')),
             (''/r/docs/x/a/n.md'', doc ''skip: true''),
             (''/r/docs/x/README.md'', doc ''title: Home'')]"

definition passConfig :: "unit DocsConfig" where
  "passConfig =
     exConfig [navItem ''B'' ''a/b'', navItem ''S'' ''a/s'', \<lparr>label = ''Old'', to = ''a/old'', badge = Some ''new''\<rparr>]
              [navItem ''N'' ''a/n'']"

text \<open>A root whose files give every category of the report that lasts: a skipped page,
  a page without frontmatter, a page with no anchor in the navigation, a page whose
  title differs from the label of its entry, and an entry without a file.\<close>

definition reportFs :: filesystem where
  "reportFs = [(''/r/docs/x/a/b.md'', doc ''title: Bee''),
               (''/r/docs/x/a/s.md'', doc (''title: S'' @ [nl] @ ''skip: true'')),
               (''/r/docs/x/a/n.md'', ''no frontmatter''),
               (''/r/docs/x/z/q.md'', doc ''title: Q'')]"

definition reportConfig :: "unit DocsConfig" where
  "reportConfig = exConfig [navItem ''B'' ''a/b'', navItem ''Old'' ''a/old''] []"

text \<open>Two files with one route, the second of them skipped.\<close>

definition twinFs :: filesystem where
  "twinFs = [(''/r/docs/x/a/t.md'', doc ''title: T''),
             (''/r/docs/x/a/t.mdx'', doc (''title: T'' @ [nl] @ ''skip: true''))]"

text \<open>A page with the route of an entry, and two files with one route below it that both
  have a title; the configuration has an entry below that route in the container of
  \<open>a/b\<close>.\<close>

definition belowFs :: filesystem where
  "belowFs = [(''/r/docs/x/a/b.md'', doc ''title: B''),
              (''/r/docs/x/a/b/c.md'', doc ''title: C''),
              (''/r/docs/x/a/b/c.mdx'', doc ''title: Other'')]"

definition belowConfig :: "unit DocsConfig" where
  "belowConfig = exConfig [navItem ''B'' ''a/b'', navItem ''D'' ''a/b/c/d''] []"

text \<open>
  The text of a configuration file with the sections and entries of \<open>passConfig\<close> and
  a group without entries in the second section: \<^verbatim>\<open>docSearch\<close> is an object, the first
  section has a key the interface does not name, the entries have their keys in
  different orders, and \<^verbatim>\<open>version\<close> is a top-level key the interface does not name.
\<close>

definition exDoc :: "int json" where
  "exDoc = JObj
     [(''docSearch'', JObj [(''appId'', JStr ''A''), (''hits'', JNum 20)]),
      (''sections'', JArr
         [JObj [(''label'', JStr ''Guide''),
                (''children'', JArr
                   [JObj [(''to'', JStr ''a/b''), (''label'', JStr ''B'')],
                    JObj [(''label'', JStr ''S''), (''to'', JStr ''a/s'')],
                    JObj [(''label'', JStr ''Old''), (''badge'', JStr ''new''),
                          (''to'', JStr ''a/old'')]]),
                (''collapsible'', JBool True)],
          JObj [(''label'', JStr ''Api''),
                (''children'', JArr [JObj [(''label'', JStr ''N''), (''to'', JStr ''a/n'')]]),
                (''frameworks'', JArr
                   [JObj [(''label'', JStr ''react''), (''children'', JArr [])]])]]),
      (''version'', JNum 2),
      (''users'', JArr [JStr ''u''])]"

text \<open>A configuration file with a top-level key that is an array index.\<close>

definition numDoc :: "int json" where
  "numDoc = JObj [(''docSearch'', JNull), (''sections'', JArr []), (''1'', JStr ''x'')]"

section \<open>Facts about the operations\<close>

subsection \<open>Containers\<close>

lemma map_update_same:
  "f y = f (xs ! i) \<Longrightarrow> map f (xs[i := y]) = map f xs"
  by (induction xs arbitrary: i) (auto split: nat.splits)

lemma getContainer_sec:
  "getContainer config p = secGet (sections config ! sectionIx p) (frameworkIx p)"
  by (simp add: getContainer_def secGet_def fwList_def Let_def split: option.splits)

lemma setContainer_sec:
  "setContainer config p c =
     config\<lparr>sections := (sections config)
        [sectionIx p := secSet (sections config ! sectionIx p) (frameworkIx p) c]\<rparr>"
  by (simp add: setContainer_def secSet_def Let_def)

lemma fwList_secSet_length [simp]: "length (fwList (secSet s fo c)) = length (fwList s)"
  by (cases fo; cases "frameworks s") (simp_all add: fwList_def secSet_def)

lemma secValid_secSet [simp]: "secValid (secSet s fo c) fo' = secValid s fo'"
  by (cases fo') (simp_all add: secValid_def)

lemma secGet_secSet_same: "secValid s fo \<Longrightarrow> secGet (secSet s fo c) fo = c"
  by (cases fo; cases "frameworks s") (simp_all add: secValid_def secGet_def secSet_def fwList_def)

lemma secGet_secSet_other: "fo' \<noteq> fo \<Longrightarrow> secGet (secSet s fo c) fo' = secGet s fo'"
  by (cases fo; cases fo'; cases "frameworks s")
     (simp_all add: secGet_def secSet_def fwList_def)

lemma secSet_invalid: "\<not> secValid s fo \<Longrightarrow> secSet s fo c = s"
  by (cases fo; cases "frameworks s")
     (simp_all add: secValid_def secSet_def fwList_def list_update_beyond)

lemma eraseSection_secSet [simp]: "eraseSection (secSet s fo c) = eraseSection s"
proof (cases fo)
  case None
  then show ?thesis by (simp add: eraseSection_def secSet_def)
next
  case (Some j)
  show ?thesis
  proof (cases "frameworks s")
    case None
    then show ?thesis using Some by (simp add: eraseSection_def secSet_def)
  next
    case fws: (Some fws)
    have "map (\<lambda>fw. fw\<lparr>fw_children := []\<rparr>) (fws[j := (fws ! j)\<lparr>fw_children := c\<rparr>])
          = map (\<lambda>fw. fw\<lparr>fw_children := []\<rparr>) fws"
      by (rule map_update_same) simp
    then show ?thesis using Some fws by (simp add: eraseSection_def secSet_def)
  qed
qed

lemma getContainer_setContainer_same:
  "validPlacement config p \<Longrightarrow> getContainer (setContainer config p c) p = c"
  by (simp add: validPlacement_def getContainer_sec setContainer_sec secGet_secSet_same)

lemma getContainer_setContainer_other:
  assumes "q \<noteq> p"
  shows "getContainer (setContainer config p c) q = getContainer config q"
proof (cases "sectionIx q = sectionIx p")
  case False
  then have "sectionIx p \<noteq> sectionIx q" by simp
  then show ?thesis by (simp add: getContainer_sec setContainer_sec)
next
  case True
  then have fw: "frameworkIx q \<noteq> frameworkIx p" using assms by (cases p, cases q) simp
  show ?thesis
  proof (cases "sectionIx p < length (sections config)")
    case False
    then show ?thesis by (simp add: getContainer_sec setContainer_sec list_update_beyond)
  next
    case inr: True
    show ?thesis
      using True fw inr by (simp add: getContainer_sec setContainer_sec secGet_secSet_other)
  qed
qed

lemma setContainer_invalid:
  assumes "\<not> validPlacement config p"
  shows "setContainer config p c = config"
proof (cases "sectionIx p < length (sections config)")
  case False
  then show ?thesis by (simp add: setContainer_sec list_update_beyond)
next
  case True
  then have "secSet (sections config ! sectionIx p) (frameworkIx p) c = sections config ! sectionIx p"
    using assms by (simp add: validPlacement_def secSet_invalid)
  then show ?thesis by (simp add: setContainer_sec)
qed

lemma sections_setContainer_length [simp]:
  "length (sections (setContainer config p c)) = length (sections config)"
  by (simp add: setContainer_sec)

lemma validPlacement_setContainer [simp]:
  "validPlacement (setContainer config p c) q = validPlacement config q"
proof (cases "sectionIx q = sectionIx p \<and> sectionIx p < length (sections config)")
  case True
  then show ?thesis by (simp add: validPlacement_def setContainer_sec)
next
  case False
  then have "sections (setContainer config p c) ! sectionIx q = sections config ! sectionIx q"
    by (auto simp: setContainer_sec nth_list_update list_update_beyond)
  then show ?thesis by (simp add: validPlacement_def)
qed

lemma eraseChildren_setContainer [simp]:
  "eraseChildren (setContainer config p c) = eraseChildren config"
proof -
  have "map eraseSection ((sections config)
          [sectionIx p := secSet (sections config ! sectionIx p) (frameworkIx p) c])
        = map eraseSection (sections config)"
    by (rule map_update_same) simp
  then show ?thesis by (simp add: eraseChildren_def setContainer_sec)
qed

lemma find_None_to: "(find (\<lambda>entry. to entry = r) c = None) = (r \<notin> to ` set c)"
  by (auto simp: find_None_iff)

lemma ensureNavItem_container:
  "fst (ensureNavItem c item lg) = (if to item \<in> to ` set c then c else c @ [item])"
proof (cases "find (\<lambda>entry. to entry = to item) c")
  case None
  then show ?thesis by (simp add: ensureNavItem_def find_None_to[symmetric])
next
  case (Some found)
  then have "to item \<in> to ` set c"
    using find_None_to[of "to item" c] by simp
  then show ?thesis using Some by (simp add: ensureNavItem_def)
qed

lemma removeSkippedFrom_filter:
  "n \<le> length c \<Longrightarrow>
   removeSkippedFrom n c skipSet lg =
     (filter (\<lambda>e. to e \<notin> skipSet) (take n c) @ drop n c,
      lg\<lparr>removed := removed lg @ rev (filter (\<lambda>r. r \<in> skipSet) (map to (take n c)))\<rparr>)"
proof (induction n arbitrary: c lg)
  case 0
  then show ?case by simp
next
  case (Suc n)
  then have n: "n < length c" by simp
  have tk: "take (Suc n) c = take n c @ [c ! n]"
    using n by (simp add: take_Suc_conv_app_nth)
  have dr: "drop n c = c ! n # drop (Suc n) c"
    using n by (simp add: Cons_nth_drop_Suc)
  show ?case
  proof (cases "to (c ! n) \<in> skipSet")
    case True
    have len: "n \<le> length (take n c @ drop (Suc n) c)" using n by simp
    show ?thesis
      using True n Suc.IH[OF len] by (simp add: tk Let_def min_def)
  next
    case False
    have len: "n \<le> length c" using n by simp
    show ?thesis
      using False Suc.IH[OF len] by (simp add: tk dr Let_def)
  qed
qed

lemma removeSkipped_filter:
  "removeSkipped c skipSet lg =
     (filter (\<lambda>e. to e \<notin> skipSet) c,
      lg\<lparr>removed := removed lg @ rev (filter (\<lambda>r. r \<in> skipSet) (map to c))\<rparr>)"
  by (simp add: removeSkipped_def removeSkippedFrom_filter)

lemma containers_iff:
  "c \<in> set (containers config) \<longleftrightarrow> (\<exists>p. validPlacement config p \<and> getContainer config p = c)"
proof
  assume "c \<in> set (containers config)"
  then obtain s where s: "s \<in> set (sections config)"
    and c: "c = children s \<or> c \<in> fw_children ` set (fwList s)"
    by (auto simp: containers_def)
  from s obtain i where i: "i < length (sections config)" "sections config ! i = s"
    by (auto simp: in_set_conv_nth)
  from c show "\<exists>p. validPlacement config p \<and> getContainer config p = c"
  proof
    assume "c = children s"
    then have "validPlacement config \<lparr>sectionIx = i, frameworkIx = None\<rparr>
             \<and> getContainer config \<lparr>sectionIx = i, frameworkIx = None\<rparr> = c"
      using i by (simp add: validPlacement_def secValid_def getContainer_sec secGet_def)
    then show ?thesis by blast
  next
    assume "c \<in> fw_children ` set (fwList s)"
    then obtain j where j: "j < length (fwList s)" "fw_children (fwList s ! j) = c"
      by (auto simp: in_set_conv_nth)
    then have "validPlacement config \<lparr>sectionIx = i, frameworkIx = Some j\<rparr>
             \<and> getContainer config \<lparr>sectionIx = i, frameworkIx = Some j\<rparr> = c"
      using i by (simp add: validPlacement_def secValid_def getContainer_sec secGet_def)
    then show ?thesis by blast
  qed
next
  assume "\<exists>p. validPlacement config p \<and> getContainer config p = c"
  then obtain p where v: "validPlacement config p" and g: "getContainer config p = c" by blast
  let ?s = "sections config ! sectionIx p"
  have s: "?s \<in> set (sections config)" using v by (simp add: validPlacement_def)
  have "c = children ?s \<or> c \<in> fw_children ` set (fwList ?s)"
  proof (cases "frameworkIx p")
    case None
    then show ?thesis using g by (simp add: getContainer_sec secGet_def)
  next
    case (Some j)
    then have "j < length (fwList ?s)" using v by (simp add: validPlacement_def secValid_def)
    then show ?thesis using g Some by (auto simp: getContainer_sec secGet_def)
  qed
  then show "c \<in> set (containers config)"
    using s by (auto simp: containers_def)
qed

lemma uniqueRoutes_iff:
  "uniqueRoutes config \<longleftrightarrow>
     (\<forall>p. validPlacement config p \<longrightarrow> distinct (map to (getContainer config p)))"
  unfolding uniqueRoutes_def list_all_iff by (metis containers_iff)

lemma pruneFrameworks_eq:
  "pruneFrameworks skipSet fws lg =
     (map (pruneFw skipSet) fws,
      lg\<lparr>removed := removed lg @ concat (map (\<lambda>fw. removedRoutes skipSet (fw_children fw)) fws)\<rparr>)"
  by (induction fws arbitrary: lg)
     (simp_all add: removeSkipped_filter pruneFw_def keepEntries_def removedRoutes_def)

lemma pruneSection_eq:
  "pruneSection skipSet s lg =
     (pruneSec skipSet s, lg\<lparr>removed := removed lg @ removedInSection skipSet s\<rparr>)"
  by (cases "frameworks s")
     (simp_all add: pruneSection_def removeSkipped_filter pruneFrameworks_eq pruneSec_def
        keepEntries_def removedRoutes_def removedInSection_def fwList_def)

lemma pruneSections_eq:
  "pruneSections skipSet ss lg =
     (map (pruneSec skipSet) ss,
      lg\<lparr>removed := removed lg @ concat (map (removedInSection skipSet) ss)\<rparr>)"
  by (induction ss arbitrary: lg) (simp_all add: pruneSection_eq)

lemma fwList_eraseSection: "length (fwList (eraseSection s)) = length (fwList s)"
  by (cases "frameworks s") (simp_all add: fwList_def eraseSection_def)

lemma secValid_eraseSection [simp]: "secValid (eraseSection s) fo = secValid s fo"
  by (cases fo) (simp_all add: secValid_def fwList_eraseSection)

lemma validPlacement_eraseChildren [simp]:
  "validPlacement (eraseChildren config) p = validPlacement config p"
  by (auto simp: validPlacement_def eraseChildren_def)

lemma validPlacement_cong:
  "eraseChildren c' = eraseChildren c \<Longrightarrow> validPlacement c' p = validPlacement c p"
  by (metis validPlacement_eraseChildren)

subsection \<open>Reading frontmatter\<close>

lemma readDocInfo_truncated:
  assumes "cache (resolve cwd [filePath]) = None"
    and "readFile cwd fs filePath = Some raw"
    and "frontmatterBlock raw = Some block"
    and "\<not> truthy (title (parseBlock block))"
    and "ref (parseBlock block) = Some rv"
    and "resolveRefPath cwd filePath rv docsDir = Some refPath"
    and "refPath \<in> stack"
  shows "readDocInfo cwd fs cache filePath docsDir stack
         = (Some (parseBlock block), cache(resolve cwd [filePath] \<mapsto> Some (parseBlock block)))"
  using assms by (subst readDocInfo.simps) (simp add: Let_def)

lemma readDocInfo_follow:
  assumes "cache (resolve cwd [filePath]) = None"
    and "readFile cwd fs filePath = Some raw"
    and "frontmatterBlock raw = Some block"
    and "\<not> truthy (title (parseBlock block))"
    and "ref (parseBlock block) = Some rv" and "rv \<noteq> []"
    and "resolveRefPath cwd filePath rv docsDir = Some refPath"
    and "refPath \<notin> stack"
  shows "readDocInfo cwd fs cache filePath docsDir stack
         = (Some (adopt (parseBlock block)
                    (fst (readDocInfo cwd fs cache refPath docsDir (insert refPath stack)))),
            (snd (readDocInfo cwd fs cache refPath docsDir (insert refPath stack)))
              (resolve cwd [filePath] \<mapsto>
                 Some (adopt (parseBlock block)
                    (fst (readDocInfo cwd fs cache refPath docsDir (insert refPath stack))))))"
  using assms
  by (subst readDocInfo.simps) (simp add: Let_def truthy_def split: prod.splits)

lemma readDocInfo_cache_keeps:
  "cache k = Some v \<Longrightarrow> snd (readDocInfo cwd fs cache filePath docsDir stack) k = Some v"
proof (induction cwd fs cache filePath docsDir stack rule: readDocInfo.induct)
  case (1 cwd fs cache filePath docsDir stack)
  show ?case
  proof (cases "cache (resolve cwd [filePath])")
    case (Some cached)
    then show ?thesis using "1.prems" by (subst readDocInfo.simps) simp
  next
    case None
    then have kne: "k \<noteq> resolve cwd [filePath]" using "1.prems" by auto
    show ?thesis
    proof (cases "readFile cwd fs filePath")
      case rn: None
      then show ?thesis using None "1.prems" kne by (subst readDocInfo.simps) simp
    next
      case (Some raw)
      note raw = Some
      show ?thesis
      proof (cases "frontmatterBlock raw")
        case bn: None
        then show ?thesis using None raw "1.prems" kne by (subst readDocInfo.simps) simp
      next
        case (Some block)
        note block = Some
        show ?thesis
        proof (cases "\<not> truthy (title (parseBlock block)) \<and> truthy (ref (parseBlock block))")
          case False
          then show ?thesis using None raw block "1.prems" kne
            by (subst readDocInfo.simps) (auto simp: Let_def)
        next
          case True
          note follow = True
          show ?thesis
          proof (cases "resolveRefPath cwd filePath (the (ref (parseBlock block))) docsDir")
            case rp: None
            then show ?thesis using None raw block follow "1.prems" kne
              by (subst readDocInfo.simps) (simp add: Let_def)
          next
            case (Some refPath)
            show ?thesis
            proof (cases "refPath \<in> stack")
              case True
              then show ?thesis using None raw block follow Some "1.prems" kne
                by (subst readDocInfo.simps) (simp add: Let_def)
            next
              case False
              have IH: "snd (readDocInfo cwd fs cache refPath docsDir (insert refPath stack)) k
                        = Some v"
                using "1.IH"[OF refl None raw block refl follow Some False "1.prems"] .
              show ?thesis using None raw block follow Some False kne IH
                by (subst readDocInfo.simps) (auto simp: Let_def split: prod.splits)
            qed
          qed
        qed
      qed
    qed
  qed
qed

lemma readDocInfo_cache_stores:
  "snd (readDocInfo cwd fs cache filePath docsDir stack) (resolve cwd [filePath])
     = Some (fst (readDocInfo cwd fs cache filePath docsDir stack))"
  by (subst (1 2) readDocInfo.simps)
     (auto simp: Let_def split: option.splits prod.splits)

subsection \<open>The pass\<close>

lemma processDocsConfig_eq:
  "processDocsConfig cwd fs cache dir config =
     (let st = scanFiles cwd fs cache dir config;
          config' = prunedConfig (st_skipRoutes st) (st_config st)
      in ((st_log st)\<lparr>removed := removed (st_log st)
                @ concat (map (removedInSection (st_skipRoutes st)) (sections (st_config st))),
              missingFiles := foldl (missingInSection (st_seenRoutes st) (st_skipRoutes st))
                 (missingFiles (st_log st)) (sections config')\<rparr>,
          config', st_cache st))"
  by (simp add: processDocsConfig_def pruneSections_eq prunedConfig_def Let_def)

lemma fwList_pruneSec: "fwList (pruneSec skipSet s) = map (pruneFw skipSet) (fwList s)"
  by (cases "frameworks s") (simp_all add: fwList_def pruneSec_def)

lemma secValid_pruneSec [simp]: "secValid (pruneSec skipSet s) fo = secValid s fo"
  by (cases fo) (simp_all add: secValid_def fwList_pruneSec)

lemma secGet_pruneSec:
  "secValid s fo \<Longrightarrow> secGet (pruneSec skipSet s) fo = keepEntries skipSet (secGet s fo)"
proof (cases fo)
  case None
  then show ?thesis by (simp add: secGet_def pruneSec_def)
next
  case (Some j)
  assume "secValid s fo"
  then show ?thesis using Some
    by (simp add: secValid_def secGet_def fwList_pruneSec pruneFw_def)
qed

lemma eraseSection_pruneSec [simp]: "eraseSection (pruneSec skipSet s) = eraseSection s"
  by (cases "frameworks s") (simp_all add: eraseSection_def pruneSec_def pruneFw_def)

lemma validPlacement_prunedConfig [simp]:
  "validPlacement (prunedConfig skipSet config) p = validPlacement config p"
  by (auto simp: validPlacement_def prunedConfig_def)

lemma getContainer_prunedConfig:
  "validPlacement config p \<Longrightarrow>
   getContainer (prunedConfig skipSet config) p = keepEntries skipSet (getContainer config p)"
  by (simp add: validPlacement_def prunedConfig_def getContainer_sec secGet_pruneSec)

lemma eraseChildren_prunedConfig [simp]:
  "eraseChildren (prunedConfig skipSet config) = eraseChildren config"
  by (simp add: eraseChildren_def prunedConfig_def)

lemma uniqueRoutes_prunedConfig:
  "uniqueRoutes config \<Longrightarrow> uniqueRoutes (prunedConfig skipSet config)"
  by (simp add: uniqueRoutes_iff getContainer_prunedConfig keepEntries_def distinct_map_filter)

lemma ensureNavItem_distinct:
  "distinct (map to c) \<Longrightarrow> distinct (map to (fst (ensureNavItem c item lg)))"
  by (auto simp: ensureNavItem_container)

lemma placeFile_config:
  "st_config (placeFile index route t st) =
     (case findPlacement route index of
        None \<Rightarrow> st_config st
      | Some p \<Rightarrow> setContainer (st_config st) p
          (fst (ensureNavItem (getContainer (st_config st) p)
                  \<lparr>label = trim t, to = route, badge = None\<rparr> (st_log st))))"
  by (simp add: placeFile_def split: option.splits prod.splits)

lemma uniqueRoutes_setContainer:
  assumes "uniqueRoutes config" "distinct (map to c)"
  shows "uniqueRoutes (setContainer config p c)"
proof -
  have "distinct (map to (getContainer (setContainer config p c) q))"
    if "validPlacement config q" for q
  proof (cases "q = p")
    case True
    then show ?thesis using that assms(2) by (simp add: getContainer_setContainer_same)
  next
    case False
    then show ?thesis using that assms(1)
      by (simp add: getContainer_setContainer_other uniqueRoutes_iff)
  qed
  then show ?thesis by (simp add: uniqueRoutes_iff)
qed

lemma placeFile_uniqueRoutes:
  assumes "uniqueRoutes (st_config st)"
  shows "uniqueRoutes (st_config (placeFile index route t st))"
proof (cases "findPlacement route index")
  case None
  then show ?thesis using assms by (simp add: placeFile_config)
next
  case (Some p)
  show ?thesis
  proof (cases "validPlacement (st_config st) p")
    case False
    then show ?thesis using assms Some by (simp add: placeFile_config setContainer_invalid)
  next
    case True
    then have "distinct (map to (getContainer (st_config st) p))"
      using assms by (simp add: uniqueRoutes_iff)
    then show ?thesis
      using assms Some
      by (simp add: placeFile_config uniqueRoutes_setContainer ensureNavItem_distinct)
  qed
qed

lemma processFile_unfold:
  "processFile cwd fs dir configPath index st filePath =
     (if filePath = configPath then st
      else if isReadme (basename filePath) \<or> isDraft (basename filePath)
      then st\<lparr>st_seenRoutes := insert (routeFromFile cwd dir filePath) (st_seenRoutes st),
              st_skipRoutes := insert (routeFromFile cwd dir filePath) (st_skipRoutes st)\<rparr>
      else if resolvedTitle (fileInfo cwd fs dir st filePath) = []
      then recordMissingFrontmatter cwd dir filePath (afterRead cwd fs dir st filePath)
      else if resolvedSkip (fileInfo cwd fs dir st filePath)
      then (afterRead cwd fs dir st filePath)
             \<lparr>st_skipRoutes := insert (routeFromFile cwd dir filePath) (st_skipRoutes st),
              st_log := (st_log st)\<lparr>skipped :=
                 pushUnique (skipped (st_log st)) (routeFromFile cwd dir filePath)\<rparr>\<rparr>
      else placeFile index (routeFromFile cwd dir filePath)
             (resolvedTitle (fileInfo cwd fs dir st filePath))
             (afterRead cwd fs dir st filePath))"
proof (cases "readDocInfo cwd fs (st_cache st) filePath dir {}")
  case (Pair frontmatter cache')
  show ?thesis
  proof (cases frontmatter)
    case None
    then show ?thesis using Pair
      by (simp add: processFile_def Let_def fileInfo_def afterRead_def resolvedTitle_def)
  next
    case (Some i)
    show ?thesis
    proof (cases "title i")
      case None
      then show ?thesis using Pair Some
        by (simp add: processFile_def Let_def fileInfo_def afterRead_def resolvedTitle_def)
    next
      case t: (Some t)
      then show ?thesis using Pair Some
        by (simp add: processFile_def Let_def fileInfo_def afterRead_def resolvedTitle_def
              resolvedSkip_def)
    qed
  qed
qed

lemma processFile_config:
  "st_config (processFile cwd fs dir configPath index st filePath) = st_config st
   \<or> st_config (processFile cwd fs dir configPath index st filePath)
       = st_config (placeFile index (routeFromFile cwd dir filePath)
             (resolvedTitle (fileInfo cwd fs dir st filePath))
             (afterRead cwd fs dir st filePath))"
  by (simp add: processFile_unfold recordMissingFrontmatter_def afterRead_def)

lemma afterRead_config [simp]: "st_config (afterRead cwd fs dir st filePath) = st_config st"
  by (simp add: afterRead_def)

lemma processFile_uniqueRoutes:
  assumes "uniqueRoutes (st_config st)"
  shows "uniqueRoutes (st_config (processFile cwd fs dir configPath index st filePath))"
proof -
  have "uniqueRoutes (st_config (placeFile index (routeFromFile cwd dir filePath)
             (resolvedTitle (fileInfo cwd fs dir st filePath))
             (afterRead cwd fs dir st filePath)))"
    by (rule placeFile_uniqueRoutes) (simp add: assms)
  then show ?thesis
    using processFile_config[of cwd fs dir configPath index st filePath] assms by auto
qed

lemma foldl_processFile_uniqueRoutes:
  "uniqueRoutes (st_config st) \<Longrightarrow>
   uniqueRoutes (st_config (foldl (processFile cwd fs dir configPath index) st files))"
  by (induction files arbitrary: st) (simp_all add: processFile_uniqueRoutes)

lemma processDocsConfig_uniqueRoutes:
  assumes "uniqueRoutes config"
  shows "uniqueRoutes (fst (snd (processDocsConfig cwd fs cache dir config)))"
proof -
  have "uniqueRoutes (st_config (scanFiles cwd fs cache dir config))"
    unfolding scanFiles_def
    by (rule foldl_processFile_uniqueRoutes) (simp add: initialState_def assms)
  then show ?thesis
    by (simp add: processDocsConfig_eq Let_def uniqueRoutes_prunedConfig)
qed

lemma runPasses_uniqueRoutes:
  "uniqueRoutes config \<Longrightarrow> uniqueRoutes (runPasses cwd dir envs config)"
  by (induction envs arbitrary: config) (simp_all add: processDocsConfig_uniqueRoutes)

lemma initialState_simps [simp]:
  "st_config (initialState c k) = c"
  "st_log (initialState c k) = emptyLog"
  "st_skipRoutes (initialState c k) = {}"
  "st_seenRoutes (initialState c k) = {}"
  "st_cache (initialState c k) = k"
  by (simp_all add: initialState_def)

lemma navItem_simps [simp]:
  "label (navItem l r) = l" "to (navItem l r) = r" "badge (navItem l r) = None"
  by (simp_all add: navItem_def)

text \<open>One step of the loop, field by field.\<close>

lemma placeFile_fields [simp]:
  "st_skipRoutes (placeFile index r t st) = st_skipRoutes st"
  "st_seenRoutes (placeFile index r t st) = st_seenRoutes st"
  "st_cache (placeFile index r t st) = st_cache st"
  by (simp_all add: placeFile_def split: option.splits prod.splits)

lemma afterRead_fields [simp]:
  "st_skipRoutes (afterRead cwd fs dir st f) = st_skipRoutes st"
  "st_seenRoutes (afterRead cwd fs dir st f) = insert (routeFromFile cwd dir f) (st_seenRoutes st)"
  "st_cache (afterRead cwd fs dir st f) = snd (readDocInfo cwd fs (st_cache st) f dir {})"
  "st_log (afterRead cwd fs dir st f) = st_log st"
  by (simp_all add: afterRead_def)

lemma recordMissingFrontmatter_fields [simp]:
  "st_config (recordMissingFrontmatter cwd dir f st) = st_config st"
  "st_skipRoutes (recordMissingFrontmatter cwd dir f st) = st_skipRoutes st"
  "st_seenRoutes (recordMissingFrontmatter cwd dir f st) = st_seenRoutes st"
  "st_cache (recordMissingFrontmatter cwd dir f st) = st_cache st"
  by (simp_all add: recordMissingFrontmatter_def)

lemma processFile_seenRoutes:
  "st_seenRoutes (processFile cwd fs dir configPath index st f)
     = (if f = configPath then st_seenRoutes st
        else insert (routeFromFile cwd dir f) (st_seenRoutes st))"
  by (simp add: processFile_unfold)

lemma processFile_skipRoutes:
  "st_skipRoutes (processFile cwd fs dir configPath index st f)
     = (if f \<noteq> configPath \<and> skipsNow cwd fs dir st f
        then insert (routeFromFile cwd dir f) (st_skipRoutes st)
        else st_skipRoutes st)"
  by (simp add: processFile_unfold skipsNow_def)

lemma processFile_cache_keeps:
  "st_cache st k = Some v \<Longrightarrow> st_cache (processFile cwd fs dir configPath index st f) k = Some v"
  by (simp add: processFile_unfold readDocInfo_cache_keeps)

lemma processFile_cache_stores:
  assumes "f \<noteq> configPath" "\<not> isReadme (basename f)" "\<not> isDraft (basename f)"
  shows "st_cache (processFile cwd fs dir configPath index st f) (resolve cwd [f])
           = Some (fileInfo cwd fs dir st f)"
  using assms by (simp add: processFile_unfold readDocInfo_cache_stores fileInfo_def)

lemma foldl_processFile_cache_keeps:
  "st_cache st k = Some v \<Longrightarrow>
   st_cache (foldl (processFile cwd fs dir configPath index) st files) k = Some v"
  by (induction files arbitrary: st) (simp_all add: processFile_cache_keeps)

lemma foldl_processFile_seenRoutes:
  "st_seenRoutes (foldl (processFile cwd fs dir configPath index) st files)
     = st_seenRoutes st \<union> routeFromFile cwd dir ` (set files - {configPath})"
  by (induction files arbitrary: st) (auto simp: processFile_seenRoutes)

lemma skipsNow_final:
  assumes "f \<noteq> configPath"
  shows "skipsNow cwd fs dir st f
         \<longleftrightarrow> skipEligible cwd (st_cache (foldl (processFile cwd fs dir configPath index)
                 (processFile cwd fs dir configPath index st f) files)) f"
proof (cases "isReadme (basename f) \<or> isDraft (basename f)")
  case True
  then show ?thesis by (auto simp: skipsNow_def skipEligible_def)
next
  case False
  then have "st_cache (processFile cwd fs dir configPath index st f) (resolve cwd [f])
           = Some (fileInfo cwd fs dir st f)"
    using assms by (simp add: processFile_cache_stores)
  then have "st_cache (foldl (processFile cwd fs dir configPath index)
                 (processFile cwd fs dir configPath index st f) files) (resolve cwd [f])
           = Some (fileInfo cwd fs dir st f)"
    by (rule foldl_processFile_cache_keeps)
  then show ?thesis using False by (simp add: skipsNow_def skipEligible_def cachedInfo_def)
qed

lemma foldl_processFile_skipRoutes:
  "st_skipRoutes (foldl (processFile cwd fs dir configPath index) st files)
     = st_skipRoutes st
       \<union> routeFromFile cwd dir `
           {f \<in> set files - {configPath}.
              skipEligible cwd (st_cache (foldl (processFile cwd fs dir configPath index) st files)) f}"
proof (induction files arbitrary: st)
  case Nil
  then show ?case by simp
next
  case (Cons f files)
  let ?F = "processFile cwd fs dir configPath index"
  let ?final = "foldl ?F (?F st f) files"
  have IH: "st_skipRoutes ?final = st_skipRoutes (?F st f)
       \<union> routeFromFile cwd dir ` {g \<in> set files - {configPath}. skipEligible cwd (st_cache ?final) g}"
    by (rule Cons.IH)
  show ?case
  proof (cases "f = configPath")
    case True
    then show ?thesis using IH by (auto simp: processFile_skipRoutes)
  next
    case False
    have "skipsNow cwd fs dir st f \<longleftrightarrow> skipEligible cwd (st_cache ?final) f"
      using False by (rule skipsNow_final)
    then show ?thesis using IH False by (auto simp: processFile_skipRoutes)
  qed
qed

lemma grows_refl: "grows routes config config"
  by (simp add: grows_def)

lemma grows_mono: "grows routes c c' \<Longrightarrow> routes \<subseteq> routes' \<Longrightarrow> grows routes' c c'"
  unfolding grows_def by (metis subsetD)

lemma grows_trans:
  assumes "grows routes c c'" "grows routes c' c''"
  shows "grows routes c c''"
proof -
  have e: "eraseChildren c'' = eraseChildren c" using assms by (simp add: grows_def)
  have "\<exists>extra. getContainer c'' pl = getContainer c pl @ extra
               \<and> (\<forall>e \<in> set extra. badge e = None \<and> to e \<in> routes)"
    if v: "validPlacement c pl" for pl
  proof -
    have v': "validPlacement c' pl"
      using v assms(1) validPlacement_cong[of c' c pl] by (simp add: grows_def)
    obtain x1 where x1: "getContainer c' pl = getContainer c pl @ x1"
        "\<forall>e \<in> set x1. badge e = None \<and> to e \<in> routes"
      using assms(1) v unfolding grows_def by blast
    obtain x2 where x2: "getContainer c'' pl = getContainer c' pl @ x2"
        "\<forall>e \<in> set x2. badge e = None \<and> to e \<in> routes"
      using assms(2) v' unfolding grows_def by blast
    have "getContainer c'' pl = getContainer c pl @ (x1 @ x2)" using x1 x2 by simp
    moreover have "\<forall>e \<in> set (x1 @ x2). badge e = None \<and> to e \<in> routes"
      using x1 x2 by auto
    ultimately show ?thesis by blast
  qed
  then show ?thesis using e by (simp add: grows_def)
qed

lemma placeFile_grows: "grows {r} (st_config st) (st_config (placeFile index r t st))"
proof (cases "findPlacement r index")
  case None
  then show ?thesis by (simp add: placeFile_config grows_refl)
next
  case (Some p)
  let ?item = "\<lparr>label = trim t, to = r, badge = None\<rparr>"
  let ?c = "fst (ensureNavItem (getContainer (st_config st) p) ?item (st_log st))"
  have cfg: "st_config (placeFile index r t st) = setContainer (st_config st) p ?c"
    using Some by (simp add: placeFile_config)
  have "\<exists>extra. getContainer (setContainer (st_config st) p ?c) pl
                  = getContainer (st_config st) pl @ extra
               \<and> (\<forall>e \<in> set extra. badge e = None \<and> to e \<in> {r})"
    if v: "validPlacement (st_config st) pl" for pl
  proof (cases "pl = p")
    case True
    have "getContainer (setContainer (st_config st) p ?c) pl = ?c"
      using True v by (simp add: getContainer_setContainer_same)
    moreover have "?c = getContainer (st_config st) pl @ []
                 \<or> ?c = getContainer (st_config st) pl @ [?item]"
      using True by (simp add: ensureNavItem_container)
    ultimately show ?thesis by (metis empty_iff empty_set list.set_intros(1) set_ConsD
          NavItem.select_convs(2,3) singletonI)
  next
    case False
    then have "getContainer (setContainer (st_config st) p ?c) pl
               = getContainer (st_config st) pl @ []"
      by (simp add: getContainer_setContainer_other)
    then show ?thesis by (metis empty_iff empty_set)
  qed
  then show ?thesis unfolding cfg by (simp add: grows_def)
qed

lemma processFile_grows:
  "grows {routeFromFile cwd dir f} (st_config st)
         (st_config (processFile cwd fs dir configPath index st f))"
  using processFile_config[of cwd fs dir configPath index st f]
        placeFile_grows[of "routeFromFile cwd dir f" "afterRead cwd fs dir st f" index]
  by (auto simp: grows_refl)

lemma foldl_processFile_grows:
  "grows (routeFromFile cwd dir ` set files) (st_config st)
         (st_config (foldl (processFile cwd fs dir configPath index) st files))"
proof (induction files arbitrary: st)
  case Nil
  then show ?case by (simp add: grows_refl)
next
  case (Cons f files)
  let ?R = "routeFromFile cwd dir ` set (f # files)"
  have a: "grows ?R (st_config st) (st_config (processFile cwd fs dir configPath index st f))"
    by (rule grows_mono[OF processFile_grows]) simp
  have b: "grows ?R (st_config (processFile cwd fs dir configPath index st f))
             (st_config (foldl (processFile cwd fs dir configPath index)
                (processFile cwd fs dir configPath index st f) files))"
    by (rule grows_mono[OF Cons.IH]) auto
  show ?case using grows_trans[OF a b] by simp
qed

lemma scanFiles_grows:
  "grows (routeFromFile cwd dir ` set (listContentFiles fs dir)) config
         (st_config (scanFiles cwd fs cache dir config))"
  using foldl_processFile_grows[of cwd dir "listContentFiles fs dir" "initialState config cache"]
  by (simp add: scanFiles_def)

lemma scanFiles_seenRoutes:
  "st_seenRoutes (scanFiles cwd fs cache dir config)
     = routeFromFile cwd dir ` (set (listContentFiles fs dir) - {join dir ''config.json''})"
  by (simp add: scanFiles_def foldl_processFile_seenRoutes)

lemma scanFiles_skipRoutes:
  "st_skipRoutes (scanFiles cwd fs cache dir config)
     = routeFromFile cwd dir `
         {f \<in> set (listContentFiles fs dir) - {join dir ''config.json''}.
            skipEligible cwd (st_cache (scanFiles cwd fs cache dir config)) f}"
  using foldl_processFile_skipRoutes[of cwd fs dir "join dir ''config.json''"
          "buildPlacementIndex config" "initialState config cache" "listContentFiles fs dir"]
  by (simp add: scanFiles_def)

text \<open>The loop over the files writes neither \<^verbatim>\<open>removed\<close> nor \<^verbatim>\<open>missingFiles\<close>.\<close>

lemma placeFile_log_late [simp]:
  "removed (st_log (placeFile index r t st)) = removed (st_log st)"
  "missingFiles (st_log (placeFile index r t st)) = missingFiles (st_log st)"
  by (simp_all add: placeFile_def ensureNavItem_def split: option.splits prod.splits)

lemma processFile_log_late [simp]:
  "removed (st_log (processFile cwd fs dir configPath index st f)) = removed (st_log st)"
  "missingFiles (st_log (processFile cwd fs dir configPath index st f)) = missingFiles (st_log st)"
  by (simp_all add: processFile_unfold recordMissingFrontmatter_def)

lemma foldl_processFile_log_late [simp]:
  "removed (st_log (foldl (processFile cwd fs dir configPath index) st files)) = removed (st_log st)"
  "missingFiles (st_log (foldl (processFile cwd fs dir configPath index) st files))
     = missingFiles (st_log st)"
  by (induction files arbitrary: st) simp_all

lemma scanFiles_log_late [simp]:
  "removed (st_log (scanFiles cwd fs cache dir config)) = []"
  "missingFiles (st_log (scanFiles cwd fs cache dir config)) = []"
  by (simp_all add: scanFiles_def emptyLog_def)

text \<open>The scan for entries without a file.\<close>

lemma set_pushUnique [simp]: "set (pushUnique xs v) = insert v (set xs)"
  by (auto simp: pushUnique_def)

lemma set_foldl_noteMissing:
  "set (foldl (noteMissing seen skipSet) acc items)
     = set acc \<union> to ` {e \<in> set items. to e \<notin> seen \<and> to e \<notin> skipSet}"
  by (induction items arbitrary: acc) (auto simp: noteMissing_def)

lemma set_foldl_noteMissing_groups:
  "set (foldl (\<lambda>a fw. foldl (noteMissing seen skipSet) a (fw_children fw)) acc fws)
     = set acc \<union> to ` {e \<in> (\<Union>fw \<in> set fws. set (fw_children fw)).
                          to e \<notin> seen \<and> to e \<notin> skipSet}"
proof (induction fws arbitrary: acc)
  case Nil
  then show ?case by simp
next
  case (Cons fw fws)
  show ?case
    unfolding foldl_Cons Cons.IH set_foldl_noteMissing by auto
qed

lemma set_missingInSection:
  "set (missingInSection seen skipSet acc s)
     = set acc \<union> to ` {e \<in> entriesOf s. to e \<notin> seen \<and> to e \<notin> skipSet}"
proof (cases "frameworks s")
  case None
  then show ?thesis
    by (auto simp: missingInSection_def Let_def fwList_def entriesOf_def set_foldl_noteMissing)
next
  case (Some fws)
  then show ?thesis
    unfolding missingInSection_def Let_def entriesOf_def fwList_def
    by (simp add: set_foldl_noteMissing_groups set_foldl_noteMissing) blast
qed

lemma set_foldl_missingInSection:
  "set (foldl (missingInSection seen skipSet) acc ss)
     = set acc \<union> to ` {e \<in> (\<Union>s \<in> set ss. entriesOf s). to e \<notin> seen \<and> to e \<notin> skipSet}"
proof (induction ss arbitrary: acc)
  case Nil
  then show ?case by simp
next
  case (Cons s ss)
  show ?case
    unfolding foldl_Cons Cons.IH set_missingInSection by auto
qed

lemma entriesOf_iff:
  "e \<in> (\<Union>s \<in> set (sections config). entriesOf s)
     \<longleftrightarrow> (\<exists>pl. validPlacement config pl \<and> e \<in> set (getContainer config pl))"
proof -
  have "(\<Union>s \<in> set (sections config). entriesOf s) = (\<Union>c \<in> set (containers config). set c)"
    by (auto simp: entriesOf_def containers_def)
  then have "e \<in> (\<Union>s \<in> set (sections config). entriesOf s)
             \<longleftrightarrow> (\<exists>c. c \<in> set (containers config) \<and> e \<in> set c)"
    by auto
  also have "\<dots> \<longleftrightarrow> (\<exists>pl. validPlacement config pl \<and> e \<in> set (getContainer config pl))"
    unfolding containers_iff by blast
  finally show ?thesis .
qed

lemma final_container:
  assumes "validPlacement config pl"
  shows "\<exists>extra. getContainer (fst (snd (processDocsConfig cwd fs cache dir config))) pl
           = keepEntries (st_skipRoutes (scanFiles cwd fs cache dir config))
               (getContainer config pl @ extra)
         \<and> (\<forall>e \<in> set extra. badge e = None
               \<and> to e \<in> routeFromFile cwd dir ` set (listContentFiles fs dir))"
proof -
  let ?st = "scanFiles cwd fs cache dir config"
  have g: "grows (routeFromFile cwd dir ` set (listContentFiles fs dir)) config (st_config ?st)"
    by (rule scanFiles_grows)
  then obtain extra where x: "getContainer (st_config ?st) pl = getContainer config pl @ extra"
      "\<forall>e \<in> set extra. badge e = None \<and> to e \<in> routeFromFile cwd dir ` set (listContentFiles fs dir)"
    using assms unfolding grows_def by blast
  have v: "validPlacement (st_config ?st) pl"
    using g assms validPlacement_cong[of "st_config ?st" config pl] by (simp add: grows_def)
  have "getContainer (fst (snd (processDocsConfig cwd fs cache dir config))) pl
        = keepEntries (st_skipRoutes ?st) (getContainer (st_config ?st) pl)"
    using v by (simp add: processDocsConfig_eq Let_def getContainer_prunedConfig)
  then show ?thesis using x by metis
qed

lemma final_eraseChildren:
  "eraseChildren (fst (snd (processDocsConfig cwd fs cache dir config))) = eraseChildren config"
  using scanFiles_grows[of cwd dir fs config cache]
  by (simp add: processDocsConfig_eq Let_def grows_def)

lemma final_missingFiles:
  "set (missingFiles (fst (processDocsConfig cwd fs cache dir config)))
     = to ` {e. (\<exists>pl. validPlacement config pl
                    \<and> e \<in> set (getContainer (fst (snd (processDocsConfig cwd fs cache dir config))) pl))
                \<and> to e \<notin> st_seenRoutes (scanFiles cwd fs cache dir config)
                \<and> to e \<notin> st_skipRoutes (scanFiles cwd fs cache dir config)}"
proof -
  let ?cfg' = "fst (snd (processDocsConfig cwd fs cache dir config))"
  let ?st = "scanFiles cwd fs cache dir config"
  have v: "validPlacement ?cfg' pl = validPlacement config pl" for pl
    using validPlacement_cong[OF final_eraseChildren] .
  have "set (missingFiles (fst (processDocsConfig cwd fs cache dir config)))
        = to ` {e \<in> (\<Union>s \<in> set (sections ?cfg'). entriesOf s).
                  to e \<notin> st_seenRoutes ?st \<and> to e \<notin> st_skipRoutes ?st}"
    by (simp add: processDocsConfig_eq Let_def set_foldl_missingInSection)
  also have "\<dots> = to ` {e. (\<exists>pl. validPlacement ?cfg' pl \<and> e \<in> set (getContainer ?cfg' pl))
                \<and> to e \<notin> st_seenRoutes ?st \<and> to e \<notin> st_skipRoutes ?st}"
    using entriesOf_iff[of _ ?cfg'] by auto
  finally show ?thesis by (simp only: v)
qed

lemma removedInSection_containers:
  "removedInSection skipSet s
     = concat (map (removedRoutes skipSet) (children s # map fw_children (fwList s)))"
  by (simp add: removedInSection_def comp_def)

lemma removed_containers:
  "concat (map (removedInSection skipSet) (sections config))
     = concat (map (removedRoutes skipSet) (containers config))"
proof -
  have "concat (map (removedInSection skipSet) ss)
        = concat (map (removedRoutes skipSet)
            (concat (map (\<lambda>s. children s # map fw_children (fwList s)) ss)))" for ss
    by (induction ss) (simp_all add: removedInSection_containers)
  then show ?thesis by (simp add: containers_def)
qed

lemma final_removed:
  "removed (fst (processDocsConfig cwd fs cache dir config))
     = concat (map (removedRoutes (st_skipRoutes (scanFiles cwd fs cache dir config)))
                   (containers (st_config (scanFiles cwd fs cache dir config))))"
  by (simp add: processDocsConfig_eq Let_def removed_containers)

lemma final_container_pruned:
  assumes "validPlacement config pl"
  shows "getContainer (fst (snd (processDocsConfig cwd fs cache dir config))) pl
           = keepEntries (st_skipRoutes (scanFiles cwd fs cache dir config))
               (getContainer (st_config (scanFiles cwd fs cache dir config)) pl)"
proof -
  let ?st = "scanFiles cwd fs cache dir config"
  have g: "grows (routeFromFile cwd dir ` set (listContentFiles fs dir)) config (st_config ?st)"
    by (rule scanFiles_grows)
  have v: "validPlacement (st_config ?st) pl"
    using g assms validPlacement_cong[of "st_config ?st" config pl] by (simp add: grows_def)
  show ?thesis
    using v by (simp add: processDocsConfig_eq Let_def getContainer_prunedConfig)
qed

subsection \<open>The placement index\<close>

lemma parentRoute_neq: "r \<noteq> [] \<Longrightarrow> parentRoute r \<noteq> r"
  using parentRoute_shorter[of r] by auto

lemma ancestorRoutes_Nil [simp]: "ancestorRoutes [] = []"
  by (subst ancestorRoutes.simps) simp

lemma ancestorRoutes_step:
  "r \<noteq> [] \<Longrightarrow> ancestorRoutes r = r # ancestorRoutes (parentRoute r)"
  by (subst ancestorRoutes.simps) (simp add: Let_def parentRoute_neq)

lemma registerDirs_Nil [simp]: "registerDirs [] p dirs = dirs"
  by (subst registerDirs.simps) simp

lemma registerDirs_step:
  "r \<noteq> [] \<Longrightarrow>
   registerDirs r p dirs =
     registerDirs (parentRoute r) p (if dirs r = None then dirs(r \<mapsto> p) else dirs)"
  by (subst registerDirs.simps) (simp add: Let_def parentRoute_neq)

lemma funpow_parentRoute_Nil [simp]: "(parentRoute ^^ n) [] = []"
  by (induction n) simp_all

lemma ancestorRoutes_iff:
  "x \<in> set (ancestorRoutes r) \<longleftrightarrow> x \<noteq> [] \<and> (\<exists>n. x = (parentRoute ^^ n) r)"
proof (induction r rule: length_induct)
  case (1 r)
  show ?case
  proof (cases "r = []")
    case True
    then show ?thesis by auto
  next
    case False
    have IH: "x \<in> set (ancestorRoutes (parentRoute r))
              \<longleftrightarrow> x \<noteq> [] \<and> (\<exists>n. x = (parentRoute ^^ n) (parentRoute r))"
      using 1 False by (simp add: parentRoute_shorter)
    have eq: "(\<exists>n. x = (parentRoute ^^ n) r) \<longleftrightarrow> x = r \<or> (\<exists>n. x = (parentRoute ^^ n) (parentRoute r))"
    proof
      assume "\<exists>n. x = (parentRoute ^^ n) r"
      then obtain n where n: "x = (parentRoute ^^ n) r" by blast
      show "x = r \<or> (\<exists>n. x = (parentRoute ^^ n) (parentRoute r))"
      proof (cases n)
        case 0
        then show ?thesis using n by simp
      next
        case (Suc m)
        then have "x = (parentRoute ^^ m) (parentRoute r)" using n by (simp add: funpow_swap1)
        then show ?thesis by blast
      qed
    next
      assume "x = r \<or> (\<exists>n. x = (parentRoute ^^ n) (parentRoute r))"
      then show "\<exists>n. x = (parentRoute ^^ n) r"
      proof
        assume "x = r"
        then have "x = (parentRoute ^^ 0) r" by simp
        then show ?thesis by blast
      next
        assume "\<exists>n. x = (parentRoute ^^ n) (parentRoute r)"
        then obtain n where "x = (parentRoute ^^ n) (parentRoute r)" by blast
        then have "x = (parentRoute ^^ Suc n) r" by (simp add: funpow_swap1)
        then show ?thesis by blast
      qed
    qed
    have "x \<in> set (ancestorRoutes r) \<longleftrightarrow> x = r \<or> x \<in> set (ancestorRoutes (parentRoute r))"
      by (simp add: ancestorRoutes_step[OF False])
    also have "\<dots> \<longleftrightarrow> x = r \<or> (x \<noteq> [] \<and> (\<exists>n. x = (parentRoute ^^ n) (parentRoute r)))"
      by (simp only: IH)
    also have "\<dots> \<longleftrightarrow> x \<noteq> [] \<and> (x = r \<or> (\<exists>n. x = (parentRoute ^^ n) (parentRoute r)))"
      using False by blast
    also have "\<dots> \<longleftrightarrow> x \<noteq> [] \<and> (\<exists>n. x = (parentRoute ^^ n) r)"
      by (simp only: eq)
    finally show ?thesis .
  qed
qed

lemma registerDirs_apply:
  "registerDirs r p dirs x =
     (case dirs x of Some q \<Rightarrow> Some q
      | None \<Rightarrow> if x \<in> set (ancestorRoutes r) then Some p else None)"
proof (induction r arbitrary: dirs rule: length_induct)
  case (1 r)
  show ?case
  proof (cases "r = []")
    case True
    then show ?thesis by (simp split: option.splits)
  next
    case False
    have IH: "registerDirs (parentRoute r) p d x =
       (case d x of Some q \<Rightarrow> Some q
        | None \<Rightarrow> if x \<in> set (ancestorRoutes (parentRoute r)) then Some p else None)" for d
      using 1 False by (simp add: parentRoute_shorter)
    show ?thesis
      by (simp add: registerDirs_step[OF False] ancestorRoutes_step[OF False] IH
            split: option.splits)
  qed
qed

lemma registerAll_Nil [simp]: "registerAll [] index = index"
  by (simp add: registerAll_def)

lemma registerAll_Cons [simp]:
  "registerAll (rp # regs) index = registerAll regs (register (fst rp) (snd rp) index)"
  by (simp add: registerAll_def)

lemma registerAll_append [simp]:
  "registerAll (xs @ ys) index = registerAll ys (registerAll xs index)"
  by (simp add: registerAll_def)

lemma registerItems_registerAll:
  "registerItems items p index = registerAll (map (\<lambda>item. (to item, p)) items) index"
  by (simp add: registerItems_def registerAll_def foldl_map)

lemma foldl_registerAll:
  "foldl (\<lambda>idx j. registerAll (f j) idx) index js = registerAll (concat (map f js)) index"
  by (induction js arbitrary: index) simp_all

lemma registerFrameworks_registerAll:
  "registerFrameworks i fws index =
     registerAll (concat (map (\<lambda>j. map (\<lambda>item. (to item, \<lparr>sectionIx = i, frameworkIx = Some j\<rparr>))
                            (fw_children (fws ! j))) [0..<length fws])) index"
  by (simp add: registerFrameworks_def registerItems_registerAll foldl_registerAll)

lemma registerSection_registerAll:
  "registerSection config index i =
     registerAll (sectionRegistrations i (sections config ! i)) index"
  by (cases "frameworks (sections config ! i)")
     (simp_all add: registerSection_def sectionRegistrations_def registerItems_registerAll
        registerFrameworks_registerAll fwList_def Let_def)

lemma buildPlacementIndex_registerAll:
  "buildPlacementIndex config =
     registerAll (registrations config) \<lparr>byRoute = Map.empty, byDir = Map.empty\<rparr>"
proof -
  have "registerSection config
        = (\<lambda>idx i. registerAll (sectionRegistrations i (sections config ! i)) idx)"
    by (intro ext) (rule registerSection_registerAll)
  then show ?thesis
    by (simp add: buildPlacementIndex_def registrations_def foldl_registerAll)
qed

lemma byDir_register:
  "byDir (register r p index) x =
     (case byDir index x of Some q \<Rightarrow> Some q
      | None \<Rightarrow> if x \<in> set (ancestorRoutes r) then Some p else None)"
  by (simp add: register_def registerDirs_apply)

lemma byRoute_register:
  "byRoute (register r p index) x = (if x = r then Some p else byRoute index x)"
  by (simp add: register_def)

lemma byDir_registerAll:
  "byDir (registerAll regs index) x =
     (case byDir index x of Some q \<Rightarrow> Some q
      | None \<Rightarrow> map_option snd (find (\<lambda>rp. x \<in> set (ancestorRoutes (fst rp))) regs))"
  by (induction regs arbitrary: index) (auto simp: byDir_register split: option.splits)

lemma find_append_case:
  "find P (xs @ ys) = (case find P xs of Some x \<Rightarrow> Some x | None \<Rightarrow> find P ys)"
  by (induction xs) simp_all

lemma byRoute_registerAll:
  "byRoute (registerAll regs index) x =
     (case find (\<lambda>rp. fst rp = x) (rev regs) of
        Some rp \<Rightarrow> Some (snd rp)
      | None \<Rightarrow> byRoute index x)"
proof (induction regs arbitrary: index)
  case Nil
  then show ?case by simp
next
  case (Cons rp regs)
  show ?case
    by (simp add: Cons.IH byRoute_register find_append_case split: option.splits)
qed

lemma findPlacement_hit:
  "byRoute index r = Some p \<Longrightarrow> findPlacement r index = Some p"
  by (subst findPlacement.simps) simp

lemma findPlacement_dir:
  "byRoute index r = None \<Longrightarrow> byDir index r = Some p \<Longrightarrow> findPlacement r index = Some p"
  by (subst findPlacement.simps) simp

lemma findPlacement_miss:
  "byRoute index r = None \<Longrightarrow> byDir index r = None \<Longrightarrow>
   findPlacement r index
     = (if parentRoute r = [] then None else findPlacement (parentRoute r) index)"
  by (subst findPlacement.simps) (auto simp: Let_def dest: parentRoute_neq)

lemma self_ancestor: "r \<noteq> [] \<Longrightarrow> r \<in> set (ancestorRoutes r)"
  by (simp add: ancestorRoutes_step)

lemma pair_image_const:
  "(x, y) \<in> (\<lambda>item. (f item, c)) ` S \<longleftrightarrow> y = c \<and> x \<in> f ` S"
  by auto

lemma placement_eq_iff:
  "pl = \<lparr>sectionIx = i, frameworkIx = fo\<rparr> \<longleftrightarrow> sectionIx pl = i \<and> frameworkIx pl = fo"
  by (cases pl) auto

lemma sectionRegistrations_iff:
  "(x, pl) \<in> set (sectionRegistrations i s) \<longleftrightarrow>
     sectionIx pl = i \<and> secValid s (frameworkIx pl) \<and> x \<in> to ` set (secGet s (frameworkIx pl))"
proof -
  have A: "(x, pl) \<in> set (map (\<lambda>item. (to item, \<lparr>sectionIx = i, frameworkIx = None\<rparr>)) (children s))
           \<longleftrightarrow> sectionIx pl = i \<and> frameworkIx pl = None \<and> x \<in> to ` set (children s)"
    by (simp add: pair_image_const placement_eq_iff)
  have B: "(x, pl) \<in> set (concat (map (\<lambda>j. map (\<lambda>item. (to item, \<lparr>sectionIx = i, frameworkIx = Some j\<rparr>))
                            (fw_children (fwList s ! j))) [0..<length (fwList s)]))
           \<longleftrightarrow> sectionIx pl = i \<and> (\<exists>j < length (fwList s). frameworkIx pl = Some j
                 \<and> x \<in> to ` set (fw_children (fwList s ! j)))"
    by (simp add: pair_image_const placement_eq_iff Bex_def)
  show ?thesis
  proof (cases "frameworkIx pl")
    case None
    then show ?thesis
      unfolding sectionRegistrations_def set_append Un_iff A B
      by (simp add: secValid_def secGet_def)
  next
    case (Some j)
    then show ?thesis
      unfolding sectionRegistrations_def set_append Un_iff A B
      by (auto simp: secValid_def secGet_def)
  qed
qed

lemma registrations_iff:
  "(x, pl) \<in> set (registrations config) \<longleftrightarrow>
     validPlacement config pl \<and> x \<in> to ` set (getContainer config pl)"
  by (auto simp: registrations_def sectionRegistrations_iff validPlacement_def getContainer_sec)

lemma find_Some_mem: "find P xs = Some x \<Longrightarrow> x \<in> set xs \<and> P x"
  by (induction xs) (auto split: if_splits)

lemma placeFile_append:
  assumes "findPlacement r index = Some pl"
    and "validPlacement (st_config st) pl"
    and "r \<notin> to ` set (getContainer (st_config st) pl)"
  shows "getContainer (st_config (placeFile index r t st)) pl
           = getContainer (st_config st) pl @ [\<lparr>label = trim t, to = r, badge = None\<rparr>]"
    and "added (st_log (placeFile index r t st))
           = added (st_log st) @ [trim t @ '' -> '' @ r]"
proof -
  have f: "find (\<lambda>entry. to entry = r) (getContainer (st_config st) pl) = None"
    using assms(3) by (simp add: find_None_to)
  show "getContainer (st_config (placeFile index r t st)) pl
           = getContainer (st_config st) pl @ [\<lparr>label = trim t, to = r, badge = None\<rparr>]"
    using assms by (simp add: placeFile_config ensureNavItem_container
        getContainer_setContainer_same)
  show "added (st_log (placeFile index r t st))
           = added (st_log st) @ [trim t @ '' -> '' @ r]"
    using assms(1) f by (simp add: placeFile_def ensureNavItem_def)
qed

subsection \<open>A second pass\<close>

lemma processFile_sameFiles:
  assumes "sameFiles st st'"
  shows "sameFiles (processFile cwd fs dir configPath index st f)
                   (processFile cwd fs dir configPath index' st' f)"
proof -
  have i: "fileInfo cwd fs dir st f = fileInfo cwd fs dir st' f"
    using assms by (simp add: fileInfo_def sameFiles_def)
  show ?thesis
    using assms i by (simp add: processFile_unfold sameFiles_def)
qed

lemma foldl_processFile_sameFiles:
  "sameFiles st st' \<Longrightarrow>
   sameFiles (foldl (processFile cwd fs dir configPath index) st files)
             (foldl (processFile cwd fs dir configPath index') st' files)"
  by (induction files arbitrary: st st') (simp_all add: processFile_sameFiles)

lemma scanFiles_sameFiles:
  "sameFiles (scanFiles cwd fs cache dir config) (scanFiles cwd fs cache dir config')"
  unfolding scanFiles_def
  by (rule foldl_processFile_sameFiles) (simp add: sameFiles_def)

lemma placesNow_final:
  assumes "f \<noteq> configPath"
  shows "placesNow cwd fs dir st f
         \<longleftrightarrow> placeable cwd (st_cache (foldl (processFile cwd fs dir configPath index)
                 (processFile cwd fs dir configPath index st f) files)) f"
proof (cases "isReadme (basename f) \<or> isDraft (basename f)")
  case True
  then show ?thesis by (auto simp: placesNow_def placeable_def)
next
  case False
  then have "st_cache (processFile cwd fs dir configPath index st f) (resolve cwd [f])
           = Some (fileInfo cwd fs dir st f)"
    using assms by (simp add: processFile_cache_stores)
  then have "st_cache (foldl (processFile cwd fs dir configPath index)
                 (processFile cwd fs dir configPath index st f) files) (resolve cwd [f])
           = Some (fileInfo cwd fs dir st f)"
    by (rule foldl_processFile_cache_keeps)
  then show ?thesis using False by (simp add: placesNow_def placeable_def cachedInfo_def)
qed

lemma processFile_places:
  assumes "f \<noteq> configPath" "placesNow cwd fs dir st f"
  shows "processFile cwd fs dir configPath index st f
           = placeFile index (routeFromFile cwd dir f)
               (resolvedTitle (fileInfo cwd fs dir st f)) (afterRead cwd fs dir st f)"
  using assms by (simp add: processFile_unfold placesNow_def)

lemma processFile_no_place:
  assumes "f = configPath \<or> \<not> placesNow cwd fs dir st f"
  shows "st_config (processFile cwd fs dir configPath index st f) = st_config st"
    and "added (st_log (processFile cwd fs dir configPath index st f)) = added (st_log st)"
  using assms
  by (auto simp: processFile_unfold placesNow_def recordMissingFrontmatter_def)

lemma setContainer_getContainer [simp]:
  "setContainer config p (getContainer config p) = config"
proof (cases "validPlacement config p")
  case False
  then show ?thesis by (rule setContainer_invalid)
next
  case True
  have s: "secSet s fo (secGet s fo) = s" if "secValid s fo" for s fo
    using that
    by (cases fo; cases "frameworks s")
       (simp_all add: secSet_def secGet_def secValid_def fwList_def)
  show ?thesis
    using True by (simp add: setContainer_sec getContainer_sec validPlacement_def s)
qed

lemma placeFile_present:
  assumes "findPlacement r index = None
           \<or> (\<exists>pl. findPlacement r index = Some pl
                  \<and> r \<in> to ` set (getContainer (st_config st) pl))"
  shows "st_config (placeFile index r t st) = st_config st"
    and "added (st_log (placeFile index r t st)) = added (st_log st)"
proof -
  show "st_config (placeFile index r t st) = st_config st"
    using assms by (auto simp: placeFile_config ensureNavItem_container)
  show "added (st_log (placeFile index r t st)) = added (st_log st)"
  proof (cases "findPlacement r index")
    case None
    then show ?thesis by (simp add: placeFile_def)
  next
    case (Some pl)
    then have "r \<in> to ` set (getContainer (st_config st) pl)" using assms by auto
    then obtain found where
      "find (\<lambda>entry. to entry = r) (getContainer (st_config st) pl) = Some found"
      using find_None_to[of r "getContainer (st_config st) pl"] by auto
    then show ?thesis using Some by (simp add: placeFile_def ensureNavItem_def)
  qed
qed

lemma present_placeFile:
  assumes "present index (st_config st) r"
  shows "st_config (placeFile index r t st) = st_config st"
    and "added (st_log (placeFile index r t st)) = added (st_log st)"
proof -
  have "findPlacement r index = None
        \<or> (\<exists>pl. findPlacement r index = Some pl \<and> r \<in> to ` set (getContainer (st_config st) pl))"
    using assms by (auto simp: present_def split: option.splits)
  then show "st_config (placeFile index r t st) = st_config st"
    and "added (st_log (placeFile index r t st)) = added (st_log st)"
    by (rule placeFile_present)+
qed

lemma foldl_processFile_noop:
  assumes "\<forall>f \<in> set files. f \<noteq> configPath
             \<and> placeable cwd (st_cache (foldl (processFile cwd fs dir configPath index) st files)) f
           \<longrightarrow> present index (st_config st) (routeFromFile cwd dir f)"
  shows "st_config (foldl (processFile cwd fs dir configPath index) st files) = st_config st
       \<and> added (st_log (foldl (processFile cwd fs dir configPath index) st files))
           = added (st_log st)"
  using assms
proof (induction files arbitrary: st)
  case Nil
  then show ?case by simp
next
  case (Cons f files)
  let ?F = "processFile cwd fs dir configPath index"
  let ?st1 = "?F st f"
  have step: "st_config ?st1 = st_config st \<and> added (st_log ?st1) = added (st_log st)"
  proof (cases "f = configPath \<or> \<not> placesNow cwd fs dir st f")
    case True
    then show ?thesis using processFile_no_place[OF True] by simp
  next
    case False
    then have ne: "f \<noteq> configPath" and pn: "placesNow cwd fs dir st f" by simp_all
    have "placeable cwd (st_cache (foldl ?F ?st1 files)) f"
      using placesNow_final[OF ne, of cwd fs dir st index files] pn by simp
    then have pr: "present index (st_config st) (routeFromFile cwd dir f)"
      using Cons.prems ne by simp
    have pr': "present index (st_config (afterRead cwd fs dir st f)) (routeFromFile cwd dir f)"
      using pr by simp
    show ?thesis
      using present_placeFile[OF pr'] by (simp add: processFile_places[OF ne pn])
  qed
  have "\<forall>g \<in> set files. g \<noteq> configPath
             \<and> placeable cwd (st_cache (foldl ?F ?st1 files)) g
           \<longrightarrow> present index (st_config ?st1) (routeFromFile cwd dir g)"
    using Cons.prems step by simp
  then have "st_config (foldl ?F ?st1 files) = st_config ?st1
       \<and> added (st_log (foldl ?F ?st1 files)) = added (st_log ?st1)"
    by (rule Cons.IH)
  then show ?case using step by simp
qed

lemma placeFile_has:
  assumes "findPlacement r index = Some pl" "validPlacement (st_config st) pl"
  shows "r \<in> to ` set (getContainer (st_config (placeFile index r t st)) pl)"
  using assms
  by (simp add: placeFile_config getContainer_setContainer_same ensureNavItem_container)

lemma grows_valid: "grows R c c' \<Longrightarrow> validPlacement c' pl = validPlacement c pl"
  using validPlacement_cong[of c' c pl] by (simp add: grows_def)

lemma grows_keeps:
  assumes "grows R c c'" "validPlacement c pl" "r \<in> to ` set (getContainer c pl)"
  shows "r \<in> to ` set (getContainer c' pl)"
proof -
  obtain extra where "getContainer c' pl = getContainer c pl @ extra"
    using assms(1,2) unfolding grows_def by blast
  then show ?thesis using assms(3) by auto
qed

lemma foldl_processFile_placed:
  assumes "f \<in> set files" "f \<noteq> configPath"
    and "placeable cwd (st_cache (foldl (processFile cwd fs dir configPath index) st files)) f"
    and "findPlacement (routeFromFile cwd dir f) index = Some pl"
    and "validPlacement (st_config st) pl"
  shows "routeFromFile cwd dir f
           \<in> to ` set (getContainer
                  (st_config (foldl (processFile cwd fs dir configPath index) st files)) pl)"
  using assms
proof (induction files arbitrary: st)
  case Nil
  then show ?case by simp
next
  case (Cons g files)
  let ?F = "processFile cwd fs dir configPath index"
  let ?st1 = "?F st g"
  have "grows {routeFromFile cwd dir g} (st_config st) (st_config ?st1)"
    by (rule processFile_grows)
  then have v1: "validPlacement (st_config ?st1) pl"
    using grows_valid Cons.prems(5) by blast
  show ?case
  proof (cases "f \<in> set files")
    case True
    have "routeFromFile cwd dir f \<in> to ` set (getContainer (st_config (foldl ?F ?st1 files)) pl)"
      using Cons.prems(2,3,4) by (intro Cons.IH[OF True _ _ _ v1]) simp_all
    then show ?thesis by simp
  next
    case False
    then have fg: "f = g" using Cons.prems(1) by simp
    have pn: "placesNow cwd fs dir st g"
      using placesNow_final[of g configPath cwd fs dir st index files] Cons.prems(2,3) fg by simp
    have "?st1 = placeFile index (routeFromFile cwd dir g)
               (resolvedTitle (fileInfo cwd fs dir st g)) (afterRead cwd fs dir st g)"
      using processFile_places[of g configPath cwd fs dir st index] Cons.prems(2) fg pn by simp
    then have has: "routeFromFile cwd dir g \<in> to ` set (getContainer (st_config ?st1) pl)"
      using placeFile_has[of "routeFromFile cwd dir g" index pl "afterRead cwd fs dir st g"]
        Cons.prems(4,5) fg by simp
    have "routeFromFile cwd dir g \<in> to ` set (getContainer (st_config (foldl ?F ?st1 files)) pl)"
      by (rule grows_keeps[OF foldl_processFile_grows v1 has])
    then show ?thesis using fg by simp
  qed
qed

lemma ancestor_trans:
  assumes "x \<in> set (ancestorRoutes r)" "y \<in> set (ancestorRoutes x)"
  shows "y \<in> set (ancestorRoutes r)"
proof -
  obtain m where m: "x = (parentRoute ^^ m) r" using assms(1) by (auto simp: ancestorRoutes_iff)
  obtain n where n: "y = (parentRoute ^^ n) x" and y: "y \<noteq> []"
    using assms(2) by (auto simp: ancestorRoutes_iff)
  have "y = (parentRoute ^^ (n + m)) r" using m n by (simp add: funpow_add)
  then show ?thesis using y ancestorRoutes_iff by blast
qed

lemma ancestor_linear:
  assumes "x \<in> set (ancestorRoutes r)" "y \<in> set (ancestorRoutes r)"
  shows "x \<in> set (ancestorRoutes y) \<or> y \<in> set (ancestorRoutes x)"
proof -
  obtain m where m: "x = (parentRoute ^^ m) r" and x: "x \<noteq> []"
    using assms(1) by (auto simp: ancestorRoutes_iff)
  obtain n where n: "y = (parentRoute ^^ n) r" and y: "y \<noteq> []"
    using assms(2) by (auto simp: ancestorRoutes_iff)
  show ?thesis
  proof (cases "n \<le> m")
    case True
    then have "x = (parentRoute ^^ (m - n)) y"
      using m n by (metis funpow_add le_add_diff_inverse2 comp_apply)
    then show ?thesis using x ancestorRoutes_iff by blast
  next
    case False
    then have "y = (parentRoute ^^ (n - m)) x"
      using m n by (metis funpow_add le_add_diff_inverse2 comp_apply nat_le_linear)
    then show ?thesis using y ancestorRoutes_iff by blast
  qed
qed

lemma reach_extend:
  assumes nr: "\<not> reach R r" and sub: "R' \<subseteq> R \<union> A" and A: "\<forall>a \<in> A. reach R a"
  shows "\<not> reach R' r"
proof
  assume "reach R' r"
  then consider (self) "r \<in> R'"
    | (chain) x r' where "x \<in> set (ancestorRoutes r)" "r' \<in> R'" "x \<in> set (ancestorRoutes r')"
    unfolding reach_def by blast
  then show False
  proof cases
    case self
    then have "r \<in> R \<or> r \<in> A" using sub by blast
    then show False using nr A by (auto simp: reach_def)
  next
    case chain
    have "reach R r'" using chain(2) sub A by (auto simp: reach_def)
    then consider (inR) "r' \<in> R"
      | (via) y r0 where "y \<in> set (ancestorRoutes r')" "r0 \<in> R" "y \<in> set (ancestorRoutes r0)"
      unfolding reach_def by blast
    then show False
    proof cases
      case inR
      then show False using nr chain(1,3) by (auto simp: reach_def)
    next
      case via
      from ancestor_linear[OF chain(3) via(1)] show False
      proof
        assume "x \<in> set (ancestorRoutes y)"
        then have "x \<in> set (ancestorRoutes r0)" using via(3) ancestor_trans by blast
        then show False using nr chain(1) via(2) by (auto simp: reach_def)
      next
        assume "y \<in> set (ancestorRoutes x)"
        then have "y \<in> set (ancestorRoutes r)" using chain(1) ancestor_trans by blast
        then show False using nr via(2,3) by (auto simp: reach_def)
      qed
    qed
  qed
qed

lemma findPlacement_None_reach:
  assumes br: "\<And>x. byRoute index x = None \<longleftrightarrow> x \<notin> R"
    and bd: "\<And>x. byDir index x = None \<longleftrightarrow> \<not> (\<exists>r' \<in> R. x \<in> set (ancestorRoutes r'))"
  shows "findPlacement r index = None \<longleftrightarrow> \<not> reach R r"
proof (induction r rule: length_induct)
  case (1 r)
  show ?case
  proof (cases "byRoute index r = None \<and> byDir index r = None")
    case False
    then have "findPlacement r index \<noteq> None"
      by (subst findPlacement.simps) (auto split: option.splits)
    moreover have "reach R r"
    proof (cases "byRoute index r = None")
      case False
      then show ?thesis using br by (auto simp: reach_def)
    next
      case True
      then have "byDir index r \<noteq> None" using \<open>\<not> (byRoute index r = None \<and> byDir index r = None)\<close>
        by simp
      then have "\<exists>r' \<in> R. r \<in> set (ancestorRoutes r')" using bd[of r] by simp
      then obtain r' where r': "r' \<in> R" "r \<in> set (ancestorRoutes r')" by blast
      then have "r \<noteq> []" by (auto simp: ancestorRoutes_iff)
      then have "r \<in> set (ancestorRoutes r)" by (rule self_ancestor)
      then show ?thesis using r' by (auto simp: reach_def)
    qed
    ultimately show ?thesis by simp
  next
    case True
    then have r1: "byRoute index r = None" and r2: "byDir index r = None" by simp_all
    have nR: "r \<notin> R" using r1 br by simp
    have nD: "\<not> (\<exists>r' \<in> R. r \<in> set (ancestorRoutes r'))" using r2 bd by simp
    show ?thesis
    proof (cases "parentRoute r = []")
      case True
      have "findPlacement r index = None"
        using findPlacement_miss[OF r1 r2] True by simp
      moreover have "\<not> reach R r"
      proof (cases "r = []")
        case True
        then show ?thesis using nR by (simp add: reach_def)
      next
        case False
        then have "ancestorRoutes r = [r]"
          using True by (simp add: ancestorRoutes_step)
        then show ?thesis using nR nD by (simp add: reach_def)
      qed
      ultimately show ?thesis by simp
    next
      case False
      then have rne: "r \<noteq> []" by auto
      have IH: "findPlacement (parentRoute r) index = None \<longleftrightarrow> \<not> reach R (parentRoute r)"
        using 1 rne by (simp add: parentRoute_shorter)
      have f: "findPlacement r index = findPlacement (parentRoute r) index"
        using findPlacement_miss[OF r1 r2] False by simp
      have pa: "parentRoute r \<in> set (ancestorRoutes (parentRoute r))"
        using False by (rule self_ancestor)
      have "reach R r \<longleftrightarrow> reach R (parentRoute r)"
      proof
        assume "reach R r"
        then obtain x r' where x: "x \<in> set (ancestorRoutes r)" "r' \<in> R" "x \<in> set (ancestorRoutes r')"
          using nR by (auto simp: reach_def)
        then have "x \<noteq> r" using nD by blast
        then have "x \<in> set (ancestorRoutes (parentRoute r))"
          using x(1) by (simp add: ancestorRoutes_step[OF rne])
        then show "reach R (parentRoute r)" using x(2,3) by (auto simp: reach_def)
      next
        assume "reach R (parentRoute r)"
        then obtain x r' where x: "x \<in> set (ancestorRoutes (parentRoute r))" "r' \<in> R"
            "x \<in> set (ancestorRoutes r')"
          using pa by (auto simp: reach_def)
        then have "x \<in> set (ancestorRoutes r)" by (simp add: ancestorRoutes_step[OF rne])
        then show "reach R r" using x(2,3) by (auto simp: reach_def)
      qed
      then show ?thesis using f IH by simp
    qed
  qed
qed

lemma find_None_iff_notin: "find P xs = None \<longleftrightarrow> \<not> (\<exists>x \<in> set xs. P x)"
  by (auto simp: find_None_iff)

lemma findPlacement_build_None:
  "findPlacement r (buildPlacementIndex config) = None
     \<longleftrightarrow> \<not> reach (fst ` set (registrations config)) r"
proof (rule findPlacement_None_reach)
  fix x
  show "byRoute (buildPlacementIndex config) x = None \<longleftrightarrow> x \<notin> fst ` set (registrations config)"
  proof -
    have "byRoute (buildPlacementIndex config) x = None
          \<longleftrightarrow> find (\<lambda>rp. fst rp = x) (rev (registrations config)) = None"
      by (simp add: buildPlacementIndex_registerAll byRoute_registerAll split: option.splits)
    also have "\<dots> \<longleftrightarrow> x \<notin> fst ` set (registrations config)"
      by (auto simp: find_None_iff_notin)
    finally show ?thesis .
  qed
  show "byDir (buildPlacementIndex config) x = None
        \<longleftrightarrow> \<not> (\<exists>r' \<in> fst ` set (registrations config). x \<in> set (ancestorRoutes r'))"
    by (auto simp: buildPlacementIndex_registerAll byDir_registerAll find_None_iff_notin)
qed

lemma findPlacement_values:
  assumes "\<And>x pl. byRoute index x = Some pl \<Longrightarrow> P pl"
    and "\<And>x pl. byDir index x = Some pl \<Longrightarrow> P pl"
  shows "findPlacement r index = Some pl \<Longrightarrow> P pl"
proof (induction r rule: length_induct)
  case (1 r)
  show ?case
  proof (cases "byRoute index r")
    case (Some p)
    then show ?thesis using 1(2) assms(1) findPlacement_hit[OF Some] by auto
  next
    case None
    note r1 = None
    show ?thesis
    proof (cases "byDir index r")
      case (Some p)
      then show ?thesis using 1(2) assms(2) findPlacement_dir[OF r1 Some] by auto
    next
      case None
      have f: "findPlacement r index
               = (if parentRoute r = [] then None else findPlacement (parentRoute r) index)"
        by (rule findPlacement_miss[OF r1 None])
      then have ne: "parentRoute r \<noteq> []" and g: "findPlacement (parentRoute r) index = Some pl"
        using 1(2) by (auto split: if_splits)
      have "r \<noteq> []" using ne by auto
      then have "length (parentRoute r) < length r" by (rule parentRoute_shorter)
      then show ?thesis using 1(1) g by blast
    qed
  qed
qed

lemma findPlacement_build_valid:
  assumes "findPlacement r (buildPlacementIndex config) = Some pl"
  shows "validPlacement config pl"
proof -
  have "\<exists>x. (x, pl) \<in> set (registrations config)"
  proof (rule findPlacement_values[where index = "buildPlacementIndex config" and r = r,
        OF _ _ assms])
    fix x p
    assume "byRoute (buildPlacementIndex config) x = Some p"
    then obtain rp where "find (\<lambda>rp. fst rp = x) (rev (registrations config)) = Some rp"
        and "snd rp = p"
      by (auto simp: buildPlacementIndex_registerAll byRoute_registerAll split: option.splits)
    then have "rp \<in> set (registrations config)" "snd rp = p"
      using find_Some_mem[of "\<lambda>rp. fst rp = x" "rev (registrations config)" rp] by simp_all
    then show "\<exists>x. (x, p) \<in> set (registrations config)" by (metis prod.collapse)
  next
    fix x p
    assume "byDir (buildPlacementIndex config) x = Some p"
    then obtain rp where
        "find (\<lambda>rp. x \<in> set (ancestorRoutes (fst rp))) (registrations config) = Some rp"
        and "snd rp = p"
      by (auto simp: buildPlacementIndex_registerAll byDir_registerAll)
    then have "rp \<in> set (registrations config)" "snd rp = p"
      using find_Some_mem[of "\<lambda>rp. x \<in> set (ancestorRoutes (fst rp))" "registrations config" rp]
      by simp_all
    then show "\<exists>x. (x, p) \<in> set (registrations config)" by (metis prod.collapse)
  qed
  then show ?thesis by (auto simp: registrations_iff)
qed

lemma findPlacement_build_route:
  assumes "(r, pl) \<in> set (registrations config)"
  shows "\<exists>pl'. findPlacement r (buildPlacementIndex config) = Some pl'
               \<and> r \<in> to ` set (getContainer config pl')"
proof -
  have "\<exists>x \<in> set (rev (registrations config)). fst x = r"
    using assms by force
  then have "find (\<lambda>rp. fst rp = r) (rev (registrations config)) \<noteq> None"
    by (simp only: find_None_iff_notin) simp
  then obtain rp where f: "find (\<lambda>rp. fst rp = r) (rev (registrations config)) = Some rp"
    by auto
  then have m: "rp \<in> set (registrations config)" "fst rp = r"
    using find_Some_mem[OF f] by simp_all
  have "byRoute (buildPlacementIndex config) r = Some (snd rp)"
    by (simp add: buildPlacementIndex_registerAll byRoute_registerAll f)
  then have "findPlacement r (buildPlacementIndex config) = Some (snd rp)"
    by (rule findPlacement_hit)
  moreover have "(r, snd rp) \<in> set (registrations config)" using m by (metis prod.collapse)
  ultimately show ?thesis by (auto simp: registrations_iff)
qed

lemma placeFile_grows_found:
  "grows {x. findPlacement x index \<noteq> None} (st_config st) (st_config (placeFile index r t st))"
proof (cases "findPlacement r index")
  case None
  then show ?thesis by (simp add: placeFile_config grows_refl)
next
  case (Some pl)
  then have "{r} \<subseteq> {x. findPlacement x index \<noteq> None}" by simp
  then show ?thesis by (rule grows_mono[OF placeFile_grows])
qed

lemma processFile_grows_found:
  "grows {x. findPlacement x index \<noteq> None} (st_config st)
         (st_config (processFile cwd fs dir configPath index st f))"
  using processFile_config[of cwd fs dir configPath index st f]
        placeFile_grows_found[of index "afterRead cwd fs dir st f" "routeFromFile cwd dir f"]
  by (auto simp: grows_refl)

lemma foldl_processFile_grows_found:
  "grows {x. findPlacement x index \<noteq> None} (st_config st)
         (st_config (foldl (processFile cwd fs dir configPath index) st files))"
proof (induction files arbitrary: st)
  case Nil
  then show ?case by (simp add: grows_refl)
next
  case (Cons f files)
  show ?case
    using grows_trans[OF processFile_grows_found Cons.IH] by simp
qed

lemma keepEntries_idem [simp]: "keepEntries S (keepEntries S c) = keepEntries S c"
  by (simp add: keepEntries_def)

lemma removedRoutes_keepEntries [simp]: "removedRoutes S (keepEntries S c) = []"
  by (simp add: removedRoutes_def keepEntries_def filter_map comp_def)

lemma pruneSec_idem [simp]: "pruneSec S (pruneSec S s) = pruneSec S s"
  by (cases "frameworks s") (simp_all add: pruneSec_def pruneFw_def comp_def)

lemma prunedConfig_idem [simp]: "prunedConfig S (prunedConfig S c) = prunedConfig S c"
  by (simp add: prunedConfig_def comp_def)

lemma removedInSection_pruneSec [simp]: "removedInSection S (pruneSec S s) = []"
  by (simp add: removedInSection_def fwList_pruneSec comp_def pruneFw_def)
     (simp add: pruneSec_def)

lemma removed_prunedConfig [simp]:
  "concat (map (removedInSection S) (sections (prunedConfig S c))) = []"
  by (simp add: prunedConfig_def comp_def)

text \<open>The lists \<^verbatim>\<open>skipped\<close> and \<^verbatim>\<open>missingFrontmatter\<close> depend on the files only.\<close>

lemma placeFile_log_files [simp]:
  "skipped (st_log (placeFile index r t st)) = skipped (st_log st)"
  "missingFrontmatter (st_log (placeFile index r t st)) = missingFrontmatter (st_log st)"
  by (simp_all add: placeFile_def ensureNavItem_def split: option.splits prod.splits)

lemma processFile_log_files:
  assumes "sameFiles st st'"
    and "skipped (st_log st) = skipped (st_log st')"
    and "missingFrontmatter (st_log st) = missingFrontmatter (st_log st')"
  shows "skipped (st_log (processFile cwd fs dir configPath index st f))
           = skipped (st_log (processFile cwd fs dir configPath index' st' f))"
    and "missingFrontmatter (st_log (processFile cwd fs dir configPath index st f))
           = missingFrontmatter (st_log (processFile cwd fs dir configPath index' st' f))"
proof -
  have i: "fileInfo cwd fs dir st f = fileInfo cwd fs dir st' f"
    using assms(1) by (simp add: fileInfo_def sameFiles_def)
  show "skipped (st_log (processFile cwd fs dir configPath index st f))
           = skipped (st_log (processFile cwd fs dir configPath index' st' f))"
    using assms i by (simp add: processFile_unfold recordMissingFrontmatter_def)
  show "missingFrontmatter (st_log (processFile cwd fs dir configPath index st f))
           = missingFrontmatter (st_log (processFile cwd fs dir configPath index' st' f))"
    using assms i by (simp add: processFile_unfold recordMissingFrontmatter_def)
qed

lemma foldl_processFile_log_files:
  assumes "sameFiles st st'"
    and "skipped (st_log st) = skipped (st_log st')"
    and "missingFrontmatter (st_log st) = missingFrontmatter (st_log st')"
  shows "skipped (st_log (foldl (processFile cwd fs dir configPath index) st files))
           = skipped (st_log (foldl (processFile cwd fs dir configPath index') st' files))
       \<and> missingFrontmatter (st_log (foldl (processFile cwd fs dir configPath index) st files))
           = missingFrontmatter (st_log (foldl (processFile cwd fs dir configPath index') st' files))"
  using assms
proof (induction files arbitrary: st st')
  case Nil
  then show ?case by simp
next
  case (Cons f files)
  show ?case
    unfolding foldl_Cons
    by (rule Cons.IH[OF processFile_sameFiles[OF Cons.prems(1)]
          processFile_log_files[OF Cons.prems]])
qed

lemma scanFiles_log_files:
  "skipped (st_log (scanFiles cwd fs cache dir config))
     = skipped (st_log (scanFiles cwd fs cache dir config'))"
  "missingFrontmatter (st_log (scanFiles cwd fs cache dir config))
     = missingFrontmatter (st_log (scanFiles cwd fs cache dir config'))"
  using foldl_processFile_log_files[of "initialState config cache" "initialState config' cache"
      cwd fs dir "join dir ''config.json''" "buildPlacementIndex config" "listContentFiles fs dir"
      "buildPlacementIndex config'"]
  by (simp_all add: scanFiles_def sameFiles_def)

lemma second_scan:
  assumes H: "\<forall>f \<in> set (listContentFiles fs dir).
          f \<noteq> join dir ''config.json''
          \<and> placeable cwd (st_cache (scanFiles cwd fs cache dir config)) f
        \<longrightarrow> routeFromFile cwd dir f \<notin> st_skipRoutes (scanFiles cwd fs cache dir config)"
  shows "st_config (scanFiles cwd fs cache dir (fst (snd (processDocsConfig cwd fs cache dir config))))
           = fst (snd (processDocsConfig cwd fs cache dir config))
       \<and> added (st_log (scanFiles cwd fs cache dir
             (fst (snd (processDocsConfig cwd fs cache dir config))))) = []"
proof -
  let ?files = "listContentFiles fs dir"
  let ?cp = "join dir ''config.json''"
  let ?i1 = "buildPlacementIndex config"
  let ?st1 = "scanFiles cwd fs cache dir config"
  let ?skip = "st_skipRoutes ?st1"
  let ?cfg1 = "fst (snd (processDocsConfig cwd fs cache dir config))"
  let ?i2 = "buildPlacementIndex ?cfg1"
  let ?st2 = "scanFiles cwd fs cache dir ?cfg1"
  let ?A = "{x. findPlacement x ?i1 \<noteq> None}"
  have cfg1: "?cfg1 = prunedConfig ?skip (st_config ?st1)"
    by (simp add: processDocsConfig_eq Let_def)
  have same: "st_cache ?st2 = st_cache ?st1"
    using scanFiles_sameFiles[of cwd fs cache dir ?cfg1 config] by (simp add: sameFiles_def)
  have g: "grows ?A config (st_config ?st1)"
    unfolding scanFiles_def
    using foldl_processFile_grows_found[of ?i1 "initialState config cache" cwd fs dir ?cp ?files]
    by simp
  have valid1: "validPlacement (st_config ?st1) pl = validPlacement config pl" for pl
    using grows_valid[OF g] .
  text \<open>The routes of the first run's result: old ones, or routes the first index finds.\<close>
  have routes: "fst ` set (registrations ?cfg1) \<subseteq> fst ` set (registrations config) \<union> ?A"
  proof
    fix r assume "r \<in> fst ` set (registrations ?cfg1)"
    then obtain pl where "(r, pl) \<in> set (registrations ?cfg1)" by auto
    then have v: "validPlacement ?cfg1 pl" and m: "r \<in> to ` set (getContainer ?cfg1 pl)"
      by (simp_all add: registrations_iff)
    have v1: "validPlacement (st_config ?st1) pl" using v by (simp add: cfg1)
    then have v0: "validPlacement config pl" by (simp add: valid1)
    have "r \<in> to ` set (getContainer (st_config ?st1) pl)"
      using m v1 by (auto simp: cfg1 getContainer_prunedConfig keepEntries_def)
    moreover obtain extra where "getContainer (st_config ?st1) pl = getContainer config pl @ extra"
        "\<forall>e \<in> set extra. badge e = None \<and> to e \<in> ?A"
      using g v0 unfolding grows_def by blast
    ultimately have "r \<in> to ` set (getContainer config pl) \<or> r \<in> ?A" by auto
    then show "r \<in> fst ` set (registrations config) \<union> ?A"
      using v0 registrations_iff[of r pl config] by force
  qed
  have reachA: "\<forall>a \<in> ?A. reach (fst ` set (registrations config)) a"
    using findPlacement_build_None[of _ config] by auto
  have pres: "present ?i2 ?cfg1 (routeFromFile cwd dir f)"
    if f: "f \<in> set ?files" "f \<noteq> ?cp" "placeable cwd (st_cache ?st2) f" for f
  proof (cases "findPlacement (routeFromFile cwd dir f) ?i1")
    case None
    then have "\<not> reach (fst ` set (registrations config)) (routeFromFile cwd dir f)"
      by (simp add: findPlacement_build_None)
    then have "\<not> reach (fst ` set (registrations ?cfg1)) (routeFromFile cwd dir f)"
      using routes reachA by (rule reach_extend)
    then have "findPlacement (routeFromFile cwd dir f) ?i2 = None"
      by (simp add: findPlacement_build_None)
    then show ?thesis by (simp add: present_def)
  next
    case (Some pl1)
    let ?r = "routeFromFile cwd dir f"
    have v0: "validPlacement config pl1" using Some by (rule findPlacement_build_valid)
    have p1: "placeable cwd (st_cache ?st1) f" using f(3) same by simp
    have "?r \<in> to ` set (getContainer (st_config ?st1) pl1)"
      unfolding scanFiles_def
      using foldl_processFile_placed[of f ?files ?cp cwd fs dir ?i1 "initialState config cache" pl1]
        f(1,2) p1 Some v0
      by (simp add: scanFiles_def)
    moreover have "?r \<notin> ?skip" using H f(1,2) p1 by blast
    ultimately have "?r \<in> to ` set (getContainer ?cfg1 pl1)"
      using v0 by (auto simp: cfg1 getContainer_prunedConfig valid1 keepEntries_def)
    moreover have "validPlacement ?cfg1 pl1" using v0 by (simp add: cfg1 valid1)
    ultimately have "(?r, pl1) \<in> set (registrations ?cfg1)" by (simp add: registrations_iff)
    then obtain pl2 where "findPlacement ?r ?i2 = Some pl2"
        "?r \<in> to ` set (getContainer ?cfg1 pl2)"
      using findPlacement_build_route by blast
    then show ?thesis by (simp add: present_def)
  qed
  have "st_config (foldl (processFile cwd fs dir ?cp ?i2) (initialState ?cfg1 cache) ?files)
          = st_config (initialState ?cfg1 cache)
       \<and> added (st_log (foldl (processFile cwd fs dir ?cp ?i2) (initialState ?cfg1 cache) ?files))
          = added (st_log (initialState ?cfg1 cache))"
  proof (rule foldl_processFile_noop)
    show "\<forall>f \<in> set ?files. f \<noteq> ?cp
             \<and> placeable cwd (st_cache (foldl (processFile cwd fs dir ?cp ?i2)
                   (initialState ?cfg1 cache) ?files)) f
           \<longrightarrow> present ?i2 (st_config (initialState ?cfg1 cache)) (routeFromFile cwd dir f)"
      using pres by (simp add: scanFiles_def)
  qed
  then show ?thesis by (simp add: scanFiles_def emptyLog_def)
qed

text \<open>The list \<^verbatim>\<open>missingFrontmatter\<close> holds the files without a resolved title.\<close>

lemma processFile_missingFrontmatter:
  "set (missingFrontmatter (st_log (processFile cwd fs dir configPath index st f)))
     = (if f \<noteq> configPath \<and> lacksTitleNow cwd fs dir st f
        then insert (relative cwd dir f) (set (missingFrontmatter (st_log st)))
        else set (missingFrontmatter (st_log st)))"
  by (simp add: processFile_unfold recordMissingFrontmatter_def lacksTitleNow_def)

lemma lacksTitleNow_final:
  assumes "f \<noteq> configPath"
  shows "lacksTitleNow cwd fs dir st f
         \<longleftrightarrow> titleless cwd (st_cache (foldl (processFile cwd fs dir configPath index)
                 (processFile cwd fs dir configPath index st f) files)) f"
proof (cases "isReadme (basename f) \<or> isDraft (basename f)")
  case True
  then show ?thesis by (auto simp: lacksTitleNow_def titleless_def)
next
  case False
  then have "st_cache (processFile cwd fs dir configPath index st f) (resolve cwd [f])
           = Some (fileInfo cwd fs dir st f)"
    using assms by (simp add: processFile_cache_stores)
  then have "st_cache (foldl (processFile cwd fs dir configPath index)
                 (processFile cwd fs dir configPath index st f) files) (resolve cwd [f])
           = Some (fileInfo cwd fs dir st f)"
    by (rule foldl_processFile_cache_keeps)
  then show ?thesis using False by (simp add: lacksTitleNow_def titleless_def cachedInfo_def)
qed

lemma foldl_processFile_missingFrontmatter:
  "set (missingFrontmatter (st_log (foldl (processFile cwd fs dir configPath index) st files)))
     = set (missingFrontmatter (st_log st))
       \<union> relative cwd dir `
           {f \<in> set files - {configPath}.
              titleless cwd (st_cache (foldl (processFile cwd fs dir configPath index) st files)) f}"
proof (induction files arbitrary: st)
  case Nil
  then show ?case by simp
next
  case (Cons f files)
  let ?F = "processFile cwd fs dir configPath index"
  let ?final = "foldl ?F (?F st f) files"
  have IH: "set (missingFrontmatter (st_log ?final)) = set (missingFrontmatter (st_log (?F st f)))
       \<union> relative cwd dir ` {g \<in> set files - {configPath}. titleless cwd (st_cache ?final) g}"
    by (rule Cons.IH)
  show ?case
  proof (cases "f = configPath")
    case True
    then show ?thesis using IH by (auto simp: processFile_missingFrontmatter)
  next
    case False
    have "lacksTitleNow cwd fs dir st f \<longleftrightarrow> titleless cwd (st_cache ?final) f"
      using False by (rule lacksTitleNow_final)
    then show ?thesis using IH False by (auto simp: processFile_missingFrontmatter)
  qed
qed

lemma final_missingFrontmatter:
  "set (missingFrontmatter (fst (processDocsConfig cwd fs cache dir config)))
     = relative cwd dir `
         {f \<in> set (listContentFiles fs dir) - {join dir ''config.json''}.
            titleless cwd (st_cache (scanFiles cwd fs cache dir config)) f}"
  using foldl_processFile_missingFrontmatter[of cwd fs dir "join dir ''config.json''"
          "buildPlacementIndex config" "initialState config cache" "listContentFiles fs dir"]
  by (simp add: processDocsConfig_eq Let_def scanFiles_def emptyLog_def)

lemma final_keeps:
  assumes "validPlacement config pl" "e \<in> set (getContainer config pl)"
    and "to e \<notin> st_skipRoutes (scanFiles cwd fs cache dir config)"
  shows "e \<in> set (getContainer (fst (snd (processDocsConfig cwd fs cache dir config))) pl)"
  using final_container[OF assms(1), of cwd fs cache dir] assms(2,3)
  by (auto simp: keepEntries_def)

subsection \<open>The first file of a route\<close>

lemma findPlacement_below:
  assumes "parentRoute r = p" and "p \<noteq> []"
    and "find (\<lambda>rp. fst rp = p) (rev (registrations config)) = Some (p, plp)"
    and "r \<notin> fst ` set (registrations config)"
  shows "findPlacement r (buildPlacementIndex config) = Some (placementBelow config r plp)"
    and "validPlacement config (placementBelow config r plp)"
proof -
  let ?index = "buildPlacementIndex config"
  let ?regs = "registrations config"
  have noRoute: "find (\<lambda>rp. fst rp = r) (rev ?regs) = None"
    using assms(4) by (force simp: find_None_iff)
  have r1: "byRoute ?index r = None"
    by (simp add: buildPlacementIndex_registerAll byRoute_registerAll noRoute)
  have mem: "(p, plp) \<in> set ?regs"
    using find_Some_mem[OF assms(3)] by simp
  show "findPlacement r ?index = Some (placementBelow config r plp)"
  proof (cases "find (\<lambda>rp. r \<in> set (ancestorRoutes (fst rp))) ?regs")
    case None
    have r2: "byDir ?index r = None"
      by (simp add: buildPlacementIndex_registerAll byDir_registerAll None)
    have r3: "byRoute ?index p = Some plp"
      by (simp add: buildPlacementIndex_registerAll byRoute_registerAll assms(3))
    show ?thesis
      using findPlacement_miss[OF r1 r2] findPlacement_hit[OF r3] assms(1,2) None
      by (simp add: placementBelow_def)
  next
    case (Some rp)
    have r2: "byDir ?index r = Some (snd rp)"
      by (simp add: buildPlacementIndex_registerAll byDir_registerAll Some)
    show ?thesis
      using findPlacement_dir[OF r1 r2] Some by (simp add: placementBelow_def)
  qed
  show "validPlacement config (placementBelow config r plp)"
  proof (cases "find (\<lambda>rp. r \<in> set (ancestorRoutes (fst rp))) ?regs")
    case None
    then show ?thesis using mem by (simp add: placementBelow_def registrations_iff)
  next
    case (Some rp)
    have "(fst rp, snd rp) \<in> set ?regs" using find_Some_mem[OF Some] by simp
    then have "validPlacement config (snd rp)" by (simp only: registrations_iff)
    then show ?thesis using Some by (simp add: placementBelow_def)
  qed
qed

lemma placementBelow_holds:
  assumes "find (\<lambda>rp. fst rp = p) (rev (registrations config)) = Some (p, plp)"
  shows "p \<in> to ` set (getContainer config (placementBelow config r plp))
         \<longleftrightarrow> (\<forall>rp. find (\<lambda>rp. r \<in> set (ancestorRoutes (fst rp))) (registrations config) = Some rp
                  \<longrightarrow> p \<in> to ` set (getContainer config (snd rp)))"
proof (cases "find (\<lambda>rp. r \<in> set (ancestorRoutes (fst rp))) (registrations config)")
  case None
  have "(p, plp) \<in> set (registrations config)"
    using find_Some_mem[OF assms(1)] by simp
  then show ?thesis using None by (simp add: placementBelow_def registrations_iff)
next
  case (Some rp)
  then show ?thesis by (simp add: placementBelow_def)
qed

lemma cachedInfo_final:
  assumes "f \<noteq> configPath" "\<not> isReadme (basename f)" "\<not> isDraft (basename f)"
  shows "cachedInfo (st_cache (foldl (processFile cwd fs dir configPath index)
                 (processFile cwd fs dir configPath index st f) files)) cwd f
         = fileInfo cwd fs dir st f"
proof -
  have "st_cache (processFile cwd fs dir configPath index st f) (resolve cwd [f])
           = Some (fileInfo cwd fs dir st f)"
    using assms by (simp add: processFile_cache_stores)
  then have "st_cache (foldl (processFile cwd fs dir configPath index)
                 (processFile cwd fs dir configPath index st f) files) (resolve cwd [f])
           = Some (fileInfo cwd fs dir st f)"
    by (rule foldl_processFile_cache_keeps)
  then show ?thesis by (simp add: cachedInfo_def)
qed

lemma placeFile_added_prefix:
  "\<exists>xs. added (st_log (placeFile index r t st)) = added (st_log st) @ xs"
  by (auto simp: placeFile_def ensureNavItem_def split: option.splits)

lemma processFile_added_prefix:
  "\<exists>xs. added (st_log (processFile cwd fs dir configPath index st f)) = added (st_log st) @ xs"
  using placeFile_added_prefix[of index "routeFromFile cwd dir f"
          "resolvedTitle (fileInfo cwd fs dir st f)" "afterRead cwd fs dir st f"]
  by (auto simp: processFile_unfold recordMissingFrontmatter_def)

lemma foldl_processFile_added_prefix:
  "\<exists>xs. added (st_log (foldl (processFile cwd fs dir configPath index) st files))
          = added (st_log st) @ xs"
proof (induction files arbitrary: st)
  case Nil
  then show ?case by simp
next
  case (Cons f files)
  obtain xs where "added (st_log (processFile cwd fs dir configPath index st f))
          = added (st_log st) @ xs"
    using processFile_added_prefix by blast
  moreover obtain ys where "added (st_log (foldl (processFile cwd fs dir configPath index)
         (processFile cwd fs dir configPath index st f) files))
          = added (st_log (processFile cwd fs dir configPath index st f)) @ ys"
    using Cons.IH by blast
  ultimately show ?case by simp
qed

lemma final_added:
  "added (fst (processDocsConfig cwd fs cache dir config))
     = added (st_log (scanFiles cwd fs cache dir config))"
  by (simp add: processDocsConfig_eq Let_def)

text \<open>Only the files the pass places give the configuration new entries.\<close>

lemma processFile_grows_placed:
  "grows (if f \<noteq> configPath \<and> placesNow cwd fs dir st f then {routeFromFile cwd dir f} else {})
         (st_config st) (st_config (processFile cwd fs dir configPath index st f))"
proof (cases "f \<noteq> configPath \<and> placesNow cwd fs dir st f")
  case True
  then show ?thesis using processFile_grows[of cwd dir f st fs configPath index] by simp
next
  case False
  then have "st_config (processFile cwd fs dir configPath index st f) = st_config st"
    using processFile_no_place(1)[of f configPath cwd fs dir st index] by blast
  then show ?thesis by (simp add: grows_refl)
qed

lemma foldl_processFile_grows_placed:
  "grows (routeFromFile cwd dir `
            {g \<in> set files. g \<noteq> configPath
               \<and> placeable cwd (st_cache (foldl (processFile cwd fs dir configPath index) st files)) g})
         (st_config st)
         (st_config (foldl (processFile cwd fs dir configPath index) st files))"
proof (induction files arbitrary: st)
  case Nil
  then show ?case by (simp add: grows_refl)
next
  case (Cons f files)
  let ?F = "processFile cwd fs dir configPath index"
  let ?final = "foldl ?F (?F st f) files"
  let ?R = "routeFromFile cwd dir ` {g \<in> set (f # files). g \<noteq> configPath
               \<and> placeable cwd (st_cache ?final) g}"
  have pn: "placesNow cwd fs dir st f \<longleftrightarrow> placeable cwd (st_cache ?final) f"
    if "f \<noteq> configPath"
    using that by (rule placesNow_final)
  have a: "grows ?R (st_config st) (st_config (?F st f))"
    by (rule grows_mono[OF processFile_grows_placed]) (use pn in auto)
  have b: "grows ?R (st_config (?F st f)) (st_config ?final)"
    by (rule grows_mono[OF Cons.IH]) auto
  show ?case using grows_trans[OF a b] by simp
qed

lemma foldl_processFile_cached:
  assumes "g \<in> set files" "g \<noteq> configPath" "\<not> isReadme (basename g)" "\<not> isDraft (basename g)"
  shows "\<exists>v. st_cache (foldl (processFile cwd fs dir configPath index) st files) (resolve cwd [g])
              = Some v"
  using assms(1)
proof (induction files arbitrary: st)
  case Nil
  then show ?case by simp
next
  case (Cons f files)
  show ?case
  proof (cases "g = f")
    case True
    have "st_cache (processFile cwd fs dir configPath index st f) (resolve cwd [g])
          = Some (fileInfo cwd fs dir st g)"
      using True assms(2-4) by (simp add: processFile_cache_stores)
    then show ?thesis
      using foldl_processFile_cache_keeps by fastforce
  next
    case False
    then have "g \<in> set files" using Cons.prems by simp
    then show ?thesis using Cons.IH by simp
  qed
qed

lemma placeable_later:
  assumes "g \<in> set pre" "g \<noteq> configPath"
  shows "placeable cwd (st_cache (foldl (processFile cwd fs dir configPath index) st pre)) g
         \<longleftrightarrow> placeable cwd (st_cache (foldl (processFile cwd fs dir configPath index) st
                             (pre @ rest))) g"
proof (cases "isReadme (basename g) \<or> isDraft (basename g)")
  case True
  then show ?thesis by (auto simp: placeable_def)
next
  case False
  then obtain v where v: "st_cache (foldl (processFile cwd fs dir configPath index) st pre)
                             (resolve cwd [g]) = Some v"
    using foldl_processFile_cached[OF assms(1,2), of cwd fs dir index st] by blast
  then have "st_cache (foldl (processFile cwd fs dir configPath index)
                 (foldl (processFile cwd fs dir configPath index) st pre) rest)
                 (resolve cwd [g]) = Some v"
    by (rule foldl_processFile_cache_keeps)
  then show ?thesis using v by (simp add: placeable_def cachedInfo_def)
qed

text \<open>The step of the loop for the first placed file of a route that the container found
  for it has no entry of.\<close>

lemma first_file_placed:
  assumes fp: "findPlacement r index = Some pl"
    and v: "validPlacement config pl"
    and nr: "r \<notin> to ` set (getContainer config pl)"
    and cp: "f \<noteq> configPath" and rf: "routeFromFile cwd dir f = r"
    and first: "\<forall>g \<in> set pre. routeFromFile cwd dir g = r
                  \<longrightarrow> \<not> placeable cwd (st_cache (foldl (processFile cwd fs dir configPath index)
                         (initialState config cache) (pre @ f # post))) g"
    and pb: "placeable cwd (st_cache (foldl (processFile cwd fs dir configPath index)
                 (initialState config cache) (pre @ f # post))) f"
  shows "getContainer (st_config (foldl (processFile cwd fs dir configPath index)
                 (initialState config cache) (pre @ [f]))) pl
         = getContainer (st_config (foldl (processFile cwd fs dir configPath index)
                 (initialState config cache) pre)) pl
           @ [\<lparr>label = trim (resolvedTitle (cachedInfo (st_cache
                   (foldl (processFile cwd fs dir configPath index)
                      (initialState config cache) (pre @ f # post))) cwd f)),
               to = r, badge = None\<rparr>]"
    and "added (st_log (foldl (processFile cwd fs dir configPath index)
                 (initialState config cache) (pre @ [f])))
         = added (st_log (foldl (processFile cwd fs dir configPath index)
                 (initialState config cache) pre))
           @ [trim (resolvedTitle (cachedInfo (st_cache
                   (foldl (processFile cwd fs dir configPath index)
                      (initialState config cache) (pre @ f # post))) cwd f)) @ '' -> '' @ r]"
    and "\<lparr>label = trim (resolvedTitle (cachedInfo (st_cache
                   (foldl (processFile cwd fs dir configPath index)
                      (initialState config cache) (pre @ f # post))) cwd f)),
               to = r, badge = None\<rparr>
         \<in> set (getContainer (st_config (foldl (processFile cwd fs dir configPath index)
                 (initialState config cache) (pre @ f # post))) pl)"
    and "trim (resolvedTitle (cachedInfo (st_cache
                   (foldl (processFile cwd fs dir configPath index)
                      (initialState config cache) (pre @ f # post))) cwd f)) @ '' -> '' @ r
         \<in> set (added (st_log (foldl (processFile cwd fs dir configPath index)
                 (initialState config cache) (pre @ f # post))))"
proof -
  let ?F = "processFile cwd fs dir configPath index"
  let ?st = "foldl ?F (initialState config cache) pre"
  let ?st1 = "?F ?st f"
  let ?final = "foldl ?F (initialState config cache) (pre @ f # post)"
  let ?t = "resolvedTitle (cachedInfo (st_cache ?final) cwd f)"
  let ?e = "\<lparr>label = trim ?t, to = r, badge = None\<rparr>"
  have fin: "?final = foldl ?F ?st1 post" by simp
  have nrd: "\<not> isReadme (basename f)" "\<not> isDraft (basename f)"
    using pb by (simp_all add: placeable_def)
  have ci: "cachedInfo (st_cache ?final) cwd f = fileInfo cwd fs dir ?st f"
    unfolding fin using cp nrd by (rule cachedInfo_final)
  have pn: "placesNow cwd fs dir ?st f"
    using placesNow_final[OF cp, of cwd fs dir ?st index post] pb unfolding fin by simp
  have tt: "?t = resolvedTitle (fileInfo cwd fs dir ?st f)"
    by (simp only: ci)
  have step: "?st1 = placeFile index r ?t (afterRead cwd fs dir ?st f)"
    unfolding tt using processFile_places[OF cp pn, of index] by (simp only: rf)
  let ?P = "{g \<in> set pre. g \<noteq> configPath \<and> placeable cwd (st_cache ?st) g}"
  have g0: "grows (routeFromFile cwd dir ` ?P) config (st_config ?st)"
    using foldl_processFile_grows_placed[of cwd dir pre configPath fs index
            "initialState config cache"]
    by simp
  have v0: "validPlacement (st_config ?st) pl"
    using grows_valid[OF g0] v by simp
  obtain extra where ex: "getContainer (st_config ?st) pl = getContainer config pl @ extra"
      "\<forall>e \<in> set extra. badge e = None \<and> to e \<in> routeFromFile cwd dir ` ?P"
    using g0 v unfolding grows_def by blast
  have "routeFromFile cwd dir g \<noteq> r" if "g \<in> ?P" for g
  proof -
    have g: "g \<in> set pre" "g \<noteq> configPath" "placeable cwd (st_cache ?st) g"
      using that by simp_all
    have "placeable cwd (st_cache ?final) g"
      using placeable_later[OF g(1,2), of cwd fs dir index "initialState config cache" "f # post"]
            g(3) by simp
    then show ?thesis using first g(1) by blast
  qed
  then have "r \<notin> to ` set extra" using ex(2) by force
  then have nr0: "r \<notin> to ` set (getContainer (st_config ?st) pl)"
    using nr ex(1) by auto
  have v0': "validPlacement (st_config (afterRead cwd fs dir ?st f)) pl" using v0 by simp
  have nr0': "r \<notin> to ` set (getContainer (st_config (afterRead cwd fs dir ?st f)) pl)"
    using nr0 by simp
  note ap = placeFile_append[OF fp v0' nr0', of ?t]
  have s1: "foldl ?F (initialState config cache) (pre @ [f]) = ?st1" by simp
  show c1: "getContainer (st_config (foldl ?F (initialState config cache) (pre @ [f]))) pl
         = getContainer (st_config ?st) pl @ [?e]"
    unfolding s1 step using ap(1) by simp
  show c2: "added (st_log (foldl ?F (initialState config cache) (pre @ [f])))
         = added (st_log ?st) @ [trim ?t @ '' -> '' @ r]"
    unfolding s1 step using ap(2) by simp
  have g1: "grows (routeFromFile cwd dir ` set post) (st_config ?st1) (st_config (foldl ?F ?st1 post))"
    by (rule foldl_processFile_grows)
  have g01: "grows {routeFromFile cwd dir f} (st_config ?st) (st_config ?st1)"
    by (rule processFile_grows)
  have v1: "validPlacement (st_config ?st1) pl"
    using grows_valid[OF g01] v0 by simp
  obtain extra1 where "getContainer (st_config (foldl ?F ?st1 post)) pl
       = getContainer (st_config ?st1) pl @ extra1"
    using g1 v1 unfolding grows_def by blast
  then show "?e \<in> set (getContainer (st_config ?final) pl)"
    unfolding fin using c1 unfolding s1 by simp
  obtain ys where "added (st_log (foldl ?F ?st1 post)) = added (st_log ?st1) @ ys"
    using foldl_processFile_added_prefix by blast
  then show "trim ?t @ '' -> '' @ r \<in> set (added (st_log ?final))"
    unfolding fin using c2 unfolding s1 by simp
qed

subsection \<open>Containers of the JavaScript value\<close>

lemma map_of_update_members:
  "map_of (map (\<lambda>p. if fst p = k then (fst p, f (snd p)) else p) ps) k'
     = (if k' = k then map_option f (map_of ps k) else map_of ps k')"
  by (induction ps) auto

lemma getProp_updateProp:
  "getProp (updateProp k f v) k'
     = (if k' = k then map_option f (getProp v k) else getProp v k')"
  by (cases v) (simp_all add: getProp_def updateProp_def map_of_update_members)

lemma updateProp_same:
  "updateProp k f (updateProp k g v) = updateProp k (\<lambda>x. f (g x)) v"
  by (cases v) (auto simp: updateProp_def)

lemma updateProp_commute:
  "k \<noteq> k' \<Longrightarrow> updateProp k f (updateProp k' g v) = updateProp k' g (updateProp k f v)"
  by (cases v) (auto simp: updateProp_def)

lemma updateProp_cong:
  "(\<And>x. f x = g x) \<Longrightarrow> updateProp k f v = updateProp k g v"
  by (cases v) (auto simp: updateProp_def)

lemma mapItems_updateItem:
  "(\<And>x. f (g x) = f x) \<Longrightarrow> mapItems f (updateItem i g v) = mapItems f v"
  by (cases v) (auto simp: mapItems_def updateItem_def map_update_same)

lemma replaceItems_twice [simp]: "replaceItems c (replaceItems d v) = replaceItems c v"
  by (cases v) (simp_all add: replaceItems_def)

lemma eraseGroupJ_replace [simp]:
  "eraseGroupJ (updateProp ''children'' (replaceItems c) g) = eraseGroupJ g"
  by (simp add: eraseGroupJ_def updateProp_same)

lemma eraseSectionJ_children [simp]:
  "eraseSectionJ (updateProp ''children'' (replaceItems c) s) = eraseSectionJ s"
  by (simp add: eraseSectionJ_def updateProp_same)

lemma eraseSectionJ_frameworks [simp]:
  "eraseSectionJ (updateProp ''frameworks''
       (updateItem j (updateProp ''children'' (replaceItems c))) s) = eraseSectionJ s"
proof -
  have "updateProp ''children'' (replaceItems [])
          (updateProp ''frameworks'' (updateItem j (updateProp ''children'' (replaceItems c))) s)
        = updateProp ''frameworks'' (updateItem j (updateProp ''children'' (replaceItems c)))
            (updateProp ''children'' (replaceItems []) s)"
    by (rule updateProp_commute) simp
  then show ?thesis
    by (simp add: eraseSectionJ_def updateProp_same mapItems_updateItem)
qed

lemma eraseChildrenJ_setContainerJ [simp]:
  "eraseChildrenJ (setContainerJ config p c) = eraseChildrenJ config"
  by (cases "frameworkIx p")
     (simp_all add: eraseChildrenJ_def setContainerJ_def updateProp_same mapItems_updateItem)

lemma getContainerJ_sec:
  "getContainerJ config p = secGetJ (sectionsJ config ! sectionIx p) (frameworkIx p)"
  by (simp add: getContainerJ_def secGetJ_def Let_def)

lemma setContainerJ_sec:
  "setContainerJ config p c =
     updateProp ''sections'' (updateItem (sectionIx p) (\<lambda>s. secSetJ s (frameworkIx p) c)) config"
  by (cases "frameworkIx p") (simp_all add: setContainerJ_def secSetJ_def)

lemma validJ_sec:
  "validJ config p \<longleftrightarrow> sectionIx p < length (sectionsJ config)
     \<and> secValidJ (sectionsJ config ! sectionIx p) (frameworkIx p)"
  by (simp add: validJ_def secValidJ_def Let_def)

lemma arrayItems_updateItem:
  "arrayItems (map_option (updateItem i f) x) = (arrayItems x)[i := f (arrayItems x ! i)]"
  by (auto simp: arrayItems_def updateItem_def list_update_beyond split: option.splits json.splits)

lemma isArray_updateItem [simp]: "isArray (map_option (updateItem i f) x) = isArray x"
  by (auto simp: isArray_def updateItem_def split: option.splits json.splits)

lemma isArray_replaceItems [simp]: "isArray (map_option (replaceItems c) x) = isArray x"
  by (auto simp: isArray_def replaceItems_def split: option.splits json.splits)

lemma arrayItems_replaceItems:
  "arrayItems (map_option (replaceItems c) x) = (if isArray x then c else arrayItems x)"
  by (auto simp: arrayItems_def isArray_def replaceItems_def split: option.splits json.splits)

lemma sectionsJ_setContainerJ:
  "sectionsJ (setContainerJ config p c)
     = (sectionsJ config)[sectionIx p := secSetJ (sectionsJ config ! sectionIx p) (frameworkIx p) c]"
  by (simp add: setContainerJ_sec sectionsJ_def getProp_updateProp arrayItems_updateItem)

lemma frameworksJ_secSetJ_length [simp]:
  "length (frameworksJ (secSetJ s fo c)) = length (frameworksJ s)"
  by (cases fo) (simp_all add: secSetJ_def frameworksJ_def getProp_updateProp arrayItems_updateItem)

lemma secGetJ_secSetJ:
  "secGetJ (secSetJ s fo c) fo' = (if fo' = fo \<and> secValidJ s fo then c else secGetJ s fo')"
proof (cases fo)
  case None
  then show ?thesis
    by (cases fo')
       (simp_all add: secGetJ_def secSetJ_def secValidJ_def childrenJ_def frameworksJ_def
          getProp_updateProp arrayItems_replaceItems)
next
  case (Some j)
  show ?thesis
  proof (cases fo')
    case None
    then show ?thesis using Some
      by (simp add: secGetJ_def secSetJ_def childrenJ_def getProp_updateProp)
  next
    case (Some j')
    show ?thesis
    proof (cases "j' = j")
      case True
      show ?thesis
      proof (cases "j < length (frameworksJ s)")
        case True
        then show ?thesis using \<open>fo = Some j\<close> \<open>fo' = Some j'\<close> \<open>j' = j\<close>
          by (simp add: secGetJ_def secSetJ_def secValidJ_def childrenJ_def frameworksJ_def
                getProp_updateProp arrayItems_updateItem arrayItems_replaceItems)
      next
        case False
        then show ?thesis using \<open>fo = Some j\<close> \<open>fo' = Some j'\<close> \<open>j' = j\<close>
          by (simp add: secGetJ_def secSetJ_def secValidJ_def childrenJ_def frameworksJ_def
                getProp_updateProp arrayItems_updateItem list_update_beyond)
      qed
    next
      case False
      then show ?thesis using \<open>fo = Some j\<close> \<open>fo' = Some j'\<close>
        by (simp add: secGetJ_def secSetJ_def childrenJ_def frameworksJ_def
              getProp_updateProp arrayItems_updateItem)
    qed
  qed
qed

lemma secValidJ_secSetJ [simp]: "secValidJ (secSetJ s fo c) fo' = secValidJ s fo'"
proof (cases fo)
  case None
  then show ?thesis
    by (cases fo')
       (simp_all add: secSetJ_def secValidJ_def frameworksJ_def getProp_updateProp)
next
  case (Some j)
  show ?thesis
  proof (cases fo')
    case None
    then show ?thesis using Some
      by (simp add: secSetJ_def secValidJ_def getProp_updateProp)
  next
    case (Some j')
    show ?thesis
    proof (cases "j' = j \<and> j < length (frameworksJ s)")
      case True
      then show ?thesis using \<open>fo = Some j\<close> \<open>fo' = Some j'\<close>
        by (simp add: secSetJ_def secValidJ_def frameworksJ_def
              getProp_updateProp arrayItems_updateItem)
    next
      case False
      then show ?thesis using \<open>fo = Some j\<close> \<open>fo' = Some j'\<close>
        by (auto simp: secSetJ_def secValidJ_def frameworksJ_def
              getProp_updateProp arrayItems_updateItem)
    qed
  qed
qed

lemma validJ_setContainerJ [simp]: "validJ (setContainerJ config p c) q = validJ config q"
  by (cases "sectionIx q = sectionIx p")
     (auto simp: validJ_sec sectionsJ_setContainerJ)

lemma getContainerJ_setContainerJ:
  "getContainerJ (setContainerJ config p c) q
     = (if q = p \<and> validJ config p then c else getContainerJ config q)"
proof (cases "sectionIx q = sectionIx p")
  case True
  show ?thesis
  proof (cases "sectionIx p < length (sectionsJ config)")
    case True
    have "q = p \<longleftrightarrow> frameworkIx q = frameworkIx p"
      using \<open>sectionIx q = sectionIx p\<close> by (cases p, cases q) simp
    then show ?thesis using True \<open>sectionIx q = sectionIx p\<close>
      by (simp add: getContainerJ_sec sectionsJ_setContainerJ secGetJ_secSetJ validJ_sec)
  next
    case False
    then show ?thesis using \<open>sectionIx q = sectionIx p\<close>
      by (simp add: getContainerJ_sec sectionsJ_setContainerJ validJ_sec list_update_beyond)
  qed
next
  case False
  then have "q \<noteq> p" by auto
  then show ?thesis using False
    by (simp add: getContainerJ_sec sectionsJ_setContainerJ)
qed

subsection \<open>The pass on the JavaScript value\<close>

lemma removeSkippedFromJ_filter:
  "n \<le> length c \<Longrightarrow>
   removeSkippedFromJ n c skipSet lg =
     (filter (\<lambda>e. entryTo e \<notin> skipSet) (take n c) @ drop n c,
      lg\<lparr>removed := removed lg @ rev (filter (\<lambda>r. r \<in> skipSet) (map entryTo (take n c)))\<rparr>)"
proof (induction n arbitrary: c lg)
  case 0
  then show ?case by simp
next
  case (Suc n)
  then have n: "n < length c" by simp
  have tk: "take (Suc n) c = take n c @ [c ! n]"
    using n by (simp add: take_Suc_conv_app_nth)
  have dr: "drop n c = c ! n # drop (Suc n) c"
    using n by (simp add: Cons_nth_drop_Suc)
  show ?case
  proof (cases "entryTo (c ! n) \<in> skipSet")
    case True
    have len: "n \<le> length (take n c @ drop (Suc n) c)" using n by simp
    show ?thesis
      using True n Suc.IH[OF len] by (simp add: tk Let_def min_def)
  next
    case False
    have len: "n \<le> length c" using n by simp
    show ?thesis
      using False Suc.IH[OF len] by (simp add: tk dr Let_def)
  qed
qed

lemma removeSkippedJ_filter:
  "removeSkippedJ c skipSet lg =
     (keepJ skipSet c,
      lg\<lparr>removed := removed lg @ rev (filter (\<lambda>r. r \<in> skipSet) (map entryTo c))\<rparr>)"
  by (simp add: removeSkippedJ_def removeSkippedFromJ_filter keepJ_def)

lemma isNewEntry_navItemJ [simp]: "isNewEntry (navItemJ l r)"
  by (simp add: isNewEntry_def navItemJ_def entryLabel_def entryTo_def getProp_def stringValue_def)

lemma ensureNavItemJ_container:
  "fst (ensureNavItemJ c item lg) = c \<or> fst (ensureNavItemJ c item lg) = c @ [item]"
  by (simp add: ensureNavItemJ_def split: option.splits)

lemma growsJ_refl: "growsJ v v"
  by (simp add: growsJ_def)

lemma growsJ_trans:
  assumes "growsJ c c'" "growsJ c' c''"
  shows "growsJ c c''"
proof -
  have e: "eraseChildrenJ c'' = eraseChildrenJ c" using assms by (simp add: growsJ_def)
  have vv: "\<forall>pl. validJ c'' pl = validJ c pl" using assms by (simp add: growsJ_def)
  have "\<exists>extra. getContainerJ c'' pl = getContainerJ c pl @ extra
               \<and> (\<forall>e \<in> set extra. isNewEntry e)"
    if v: "validJ c pl" for pl
  proof -
    have v': "validJ c' pl" using v assms(1) by (simp add: growsJ_def)
    obtain x1 where x1: "getContainerJ c' pl = getContainerJ c pl @ x1"
        "\<forall>e \<in> set x1. isNewEntry e"
      using assms(1) v unfolding growsJ_def by blast
    obtain x2 where x2: "getContainerJ c'' pl = getContainerJ c' pl @ x2"
        "\<forall>e \<in> set x2. isNewEntry e"
      using assms(2) v' unfolding growsJ_def by blast
    have "getContainerJ c'' pl = getContainerJ c pl @ (x1 @ x2)" using x1 x2 by simp
    moreover have "\<forall>e \<in> set (x1 @ x2). isNewEntry e"
      using x1 x2 by auto
    ultimately show ?thesis by blast
  qed
  then show ?thesis using e vv by (simp add: growsJ_def)
qed

lemma placeFileJ_config:
  "vs_config (placeFileJ index route t st) =
     (case findPlacement route index of
        None \<Rightarrow> vs_config st
      | Some p \<Rightarrow> setContainerJ (vs_config st) p
          (fst (ensureNavItemJ (getContainerJ (vs_config st) p)
                  (navItemJ (trim t) route) (vs_log st))))"
  by (simp add: placeFileJ_def split: option.splits prod.splits)

lemma placeFileJ_grows: "growsJ (vs_config st) (vs_config (placeFileJ index r t st))"
proof (cases "findPlacement r index")
  case None
  then show ?thesis by (simp add: placeFileJ_config growsJ_refl)
next
  case (Some p)
  let ?item = "navItemJ (trim t) r"
  let ?c = "fst (ensureNavItemJ (getContainerJ (vs_config st) p) ?item (vs_log st))"
  have cfg: "vs_config (placeFileJ index r t st) = setContainerJ (vs_config st) p ?c"
    using Some by (simp add: placeFileJ_config)
  have "\<exists>extra. getContainerJ (setContainerJ (vs_config st) p ?c) pl
                  = getContainerJ (vs_config st) pl @ extra
               \<and> (\<forall>e \<in> set extra. isNewEntry e)"
    if v: "validJ (vs_config st) pl" for pl
  proof (cases "pl = p")
    case True
    have g: "getContainerJ (setContainerJ (vs_config st) p ?c) pl = ?c"
      using True v by (simp add: getContainerJ_setContainerJ)
    have "?c = getContainerJ (vs_config st) pl \<or> ?c = getContainerJ (vs_config st) pl @ [?item]"
      using True ensureNavItemJ_container by blast
    then show ?thesis
    proof
      assume "?c = getContainerJ (vs_config st) pl"
      then have "getContainerJ (setContainerJ (vs_config st) p ?c) pl
                 = getContainerJ (vs_config st) pl @ []"
        using g by simp
      then show ?thesis by (metis empty_iff empty_set)
    next
      assume a: "?c = getContainerJ (vs_config st) pl @ [?item]"
      have "getContainerJ (setContainerJ (vs_config st) p ?c) pl
                 = getContainerJ (vs_config st) pl @ [?item]"
        using g a by simp
      moreover have "\<forall>e \<in> set [?item]. isNewEntry e" by simp
      ultimately show ?thesis by blast
    qed
  next
    case False
    then have "getContainerJ (setContainerJ (vs_config st) p ?c) pl
               = getContainerJ (vs_config st) pl @ []"
      by (simp add: getContainerJ_setContainerJ)
    then show ?thesis by (metis empty_iff empty_set)
  qed
  then show ?thesis unfolding cfg by (simp add: growsJ_def)
qed

lemma processFileJ_config:
  "vs_config (processFileJ cwd fs dir configPath index st f) = vs_config st
   \<or> (\<exists>r t st'. vs_config st' = vs_config st
         \<and> vs_config (processFileJ cwd fs dir configPath index st f)
             = vs_config (placeFileJ index r t st'))"
proof (cases "f = configPath \<or> isReadme (basename f) \<or> isDraft (basename f)")
  case True
  then show ?thesis by (auto simp: processFileJ_def Let_def)
next
  case False
  obtain fm cache' where rd: "readDocInfo cwd fs (vs_cache st) f dir {} = (fm, cache')"
    by (cases "readDocInfo cwd fs (vs_cache st) f dir {}")
  let ?st2 = "st\<lparr>vs_seenRoutes := insert (routeFromFile cwd dir f) (vs_seenRoutes st),
                  vs_cache := cache'\<rparr>"
  have c2: "vs_config ?st2 = vs_config st" by simp
  show ?thesis
  proof (cases "resolvedTitle fm \<noteq> [] \<and> \<not> resolvedSkip fm")
    case True
    then obtain i t where fm: "fm = Some i" "title i = Some t" "t \<noteq> []" "skip i \<noteq> Some True"
      by (auto simp: resolvedTitle_def resolvedSkip_def split: option.splits)
    have "processFileJ cwd fs dir configPath index st f
          = placeFileJ index (routeFromFile cwd dir f) t ?st2"
      using False rd fm by (simp add: processFileJ_def Let_def)
    then show ?thesis using c2 by metis
  next
    case nt: False
    have "vs_config (processFileJ cwd fs dir configPath index st f) = vs_config st"
      using False rd nt
      by (auto simp: processFileJ_def Let_def resolvedTitle_def resolvedSkip_def
               split: option.splits)
    then show ?thesis by simp
  qed
qed

lemma processFileJ_grows:
  "growsJ (vs_config st) (vs_config (processFileJ cwd fs dir configPath index st f))"
  using processFileJ_config[of cwd fs dir configPath index st f] placeFileJ_grows growsJ_refl
  by metis

lemma foldl_processFileJ_grows:
  "growsJ (vs_config st) (vs_config (foldl (processFileJ cwd fs dir configPath index) st files))"
proof (induction files arbitrary: st)
  case Nil
  then show ?case by (simp add: growsJ_refl)
next
  case (Cons f files)
  show ?case
    using growsJ_trans[OF processFileJ_grows Cons.IH] by simp
qed

lemma scanFilesJ_grows: "growsJ config (vs_config (scanFilesJ cwd fs cache dir config))"
  using foldl_processFileJ_grows[of
      "\<lparr>vs_config = config, vs_log = emptyLog, vs_skipRoutes = {}, vs_seenRoutes = {},
        vs_cache = cache\<rparr>" cwd fs dir "join dir ''config.json''" "buildPlacementIndexJ config"
      "listContentFiles fs dir"]
  by (simp add: scanFilesJ_def)

lemma pruneAt_fst: "fst (pruneAt skipSet state pl) = pruneStep skipSet (fst state) pl"
  by (simp add: pruneAt_def pruneStep_def removeSkippedJ_filter)

lemma foldl_pruneAt_fst:
  "fst (foldl (pruneAt skipSet) state pls) = foldl (pruneStep skipSet) (fst state) pls"
  by (induction pls arbitrary: state) (simp_all add: pruneAt_fst)

lemma keepJ_idem [simp]: "keepJ S (keepJ S c) = keepJ S c"
  by (simp add: keepJ_def)

lemma validJ_pruneStep [simp]: "validJ (pruneStep S c q) pl = validJ c pl"
  by (simp add: pruneStep_def)

lemma validJ_foldl_pruneStep [simp]: "validJ (foldl (pruneStep S) c pls) pl = validJ c pl"
  by (induction pls arbitrary: c) simp_all

lemma eraseChildrenJ_foldl_pruneStep [simp]:
  "eraseChildrenJ (foldl (pruneStep S) c pls) = eraseChildrenJ c"
  by (induction pls arbitrary: c) (simp_all add: pruneStep_def)

lemma getContainerJ_pruneStep:
  "getContainerJ (pruneStep S c q) pl
     = (if pl = q \<and> validJ c q then keepJ S (getContainerJ c pl) else getContainerJ c pl)"
  by (simp add: pruneStep_def getContainerJ_setContainerJ)

lemma getContainerJ_foldl_pruneStep:
  "getContainerJ (foldl (pruneStep S) c pls) pl
     = (if pl \<in> set pls \<and> validJ c pl then keepJ S (getContainerJ c pl) else getContainerJ c pl)"
proof (induction pls arbitrary: c)
  case Nil
  then show ?case by simp
next
  case (Cons q pls)
  show ?case
    using Cons.IH[of "pruneStep S c q"] by (auto simp: getContainerJ_pruneStep)
qed

lemma validJ_placementsJ: "validJ c pl \<Longrightarrow> pl \<in> set (placementsJ c)"
proof -
  assume v: "validJ c pl"
  have i: "sectionIx pl < length (sectionsJ c)" using v by (simp add: validJ_sec)
  show ?thesis
  proof (cases "frameworkIx pl")
    case None
    then have "pl = \<lparr>sectionIx = sectionIx pl, frameworkIx = None\<rparr>" by (cases pl) simp
    then show ?thesis using i unfolding placementsJ_def by force
  next
    case (Some j)
    then have e: "pl = \<lparr>sectionIx = sectionIx pl, frameworkIx = Some j\<rparr>" by (cases pl) simp
    have j: "j < length (frameworksJ (sectionsJ c ! sectionIx pl))"
      using v Some by (simp add: validJ_sec secValidJ_def)
    show ?thesis using i j e unfolding placementsJ_def by force
  qed
qed

lemma processDocsConfigJ_config:
  "fst (snd (processDocsConfigJ cwd fs cache dir config))
     = foldl (pruneStep (vs_skipRoutes (scanFilesJ cwd fs cache dir config)))
             (vs_config (scanFilesJ cwd fs cache dir config))
             (placementsJ (vs_config (scanFilesJ cwd fs cache dir config)))"
proof -
  let ?st = "scanFilesJ cwd fs cache dir config"
  obtain c' lg where p: "foldl (pruneAt (vs_skipRoutes ?st)) (vs_config ?st, vs_log ?st)
                    (placementsJ (vs_config ?st)) = (c', lg)"
    by (cases "foldl (pruneAt (vs_skipRoutes ?st)) (vs_config ?st, vs_log ?st)
                    (placementsJ (vs_config ?st))")
  have "c' = foldl (pruneStep (vs_skipRoutes ?st)) (vs_config ?st) (placementsJ (vs_config ?st))"
    using foldl_pruneAt_fst[of "vs_skipRoutes ?st" "(vs_config ?st, vs_log ?st)"
            "placementsJ (vs_config ?st)"] p by simp
  then show ?thesis using p by (simp add: processDocsConfigJ_def Let_def)
qed

lemma final_eraseChildrenJ:
  "eraseChildrenJ (fst (snd (processDocsConfigJ cwd fs cache dir config))) = eraseChildrenJ config"
  using scanFilesJ_grows[of config cwd fs cache dir]
  by (simp add: processDocsConfigJ_config growsJ_def)

lemma final_validJ:
  "validJ (fst (snd (processDocsConfigJ cwd fs cache dir config))) pl = validJ config pl"
  using scanFilesJ_grows[of config cwd fs cache dir]
  by (simp add: processDocsConfigJ_config growsJ_def)

lemma final_containerJ:
  assumes "validJ config pl"
  shows "\<exists>extra. getContainerJ (fst (snd (processDocsConfigJ cwd fs cache dir config))) pl
           = keepJ (vs_skipRoutes (scanFilesJ cwd fs cache dir config))
               (getContainerJ config pl @ extra)
         \<and> (\<forall>e \<in> set extra. isNewEntry e)"
proof -
  let ?st = "scanFilesJ cwd fs cache dir config"
  note g = scanFilesJ_grows[of config cwd fs cache dir]
  have v: "validJ (vs_config ?st) pl" using g assms by (simp add: growsJ_def)
  obtain extra where ex: "getContainerJ (vs_config ?st) pl = getContainerJ config pl @ extra"
      "\<forall>e \<in> set extra. isNewEntry e"
    using g assms unfolding growsJ_def by blast
  have "getContainerJ (fst (snd (processDocsConfigJ cwd fs cache dir config))) pl
        = keepJ (vs_skipRoutes ?st) (getContainerJ (vs_config ?st) pl)"
    using v validJ_placementsJ[OF v]
    by (simp add: processDocsConfigJ_config getContainerJ_foldl_pruneStep)
  then show ?thesis using ex by metis
qed

subsection \<open>Parsing and serialising\<close>

text \<open>\<^verbatim>\<open>JSON.stringify\<close> goes through the operations on values.\<close>

lemma insort_key_map:
  "(\<And>x. f' (h x) = f x) \<Longrightarrow> insort_key f' (h x) (map h xs) = map h (insort_key f x xs)"
  by (induction xs) simp_all

lemma sort_key_map:
  "(\<And>x. f' (h x) = f x) \<Longrightarrow> sort_key f' (map h xs) = map h (sort_key f xs)"
  by (induction xs) (simp_all add: insort_key_map)

lemma ownProperties_map:
  assumes "\<And>p. fst (h p) = fst p"
  shows "ownProperties (map h ps) = map h (ownProperties ps)"
proof -
  have a: "filter (\<lambda>p. isArrayIndex (fst p)) (map h ps)
           = map h (filter (\<lambda>p. isArrayIndex (fst p)) ps)"
    by (simp add: filter_map o_def assms)
  have b: "filter (\<lambda>p. \<not> isArrayIndex (fst p)) (map h ps)
           = map h (filter (\<lambda>p. \<not> isArrayIndex (fst p)) ps)"
    by (simp add: filter_map o_def assms)
  have c: "sort_key (\<lambda>p. decimalValue (fst p)) (map h (filter (\<lambda>p. isArrayIndex (fst p)) ps))
           = map h (sort_key (\<lambda>p. decimalValue (fst p)) (filter (\<lambda>p. isArrayIndex (fst p)) ps))"
    by (rule sort_key_map) (simp add: assms)
  show ?thesis unfolding ownProperties_def a b c by simp
qed

lemma JSON_stringify_updateProp:
  assumes "\<And>x. JSON_stringify num (f x) = g (JSON_stringify num x)"
  shows "JSON_stringify num (updateProp k f v) = updateProp k g (JSON_stringify num v)"
proof (cases v)
  case (JObj ps)
  let ?uf = "\<lambda>p. if fst p = k then (fst p, f (snd p)) else p"
  let ?ug = "\<lambda>p. if fst p = k then (fst p, g (snd p)) else p"
  have e1: "map (map_prod id (JSON_stringify num)) (map ?uf ps)
            = map ?ug (map (map_prod id (JSON_stringify num)) ps)"
    by (induction ps) (auto simp: assms)
  have e2: "ownProperties (map ?ug (map (map_prod id (JSON_stringify num)) ps))
        = map ?ug (ownProperties (map (map_prod id (JSON_stringify num)) ps))"
    by (rule ownProperties_map) simp
  have "JSON_stringify num (updateProp k f v)
        = JObj (ownProperties (map (map_prod id (JSON_stringify num)) (map ?uf ps)))"
    using JObj by (simp add: updateProp_def del: map_map)
  also have "\<dots> = JObj (ownProperties (map ?ug (map (map_prod id (JSON_stringify num)) ps)))"
    by (simp only: e1)
  also have "\<dots> = JObj (map ?ug (ownProperties (map (map_prod id (JSON_stringify num)) ps)))"
    by (simp only: e2)
  also have "\<dots> = updateProp k g (JSON_stringify num v)"
    using JObj by (simp add: updateProp_def del: map_map)
  finally show ?thesis .
qed (simp_all add: updateProp_def split: option.splits)

lemma JSON_stringify_mapItems:
  assumes "\<And>x. JSON_stringify num (f x) = g (JSON_stringify num x)"
  shows "JSON_stringify num (mapItems f v) = mapItems g (JSON_stringify num v)"
  by (cases v) (simp_all add: mapItems_def assms split: option.splits)

lemma JSON_stringify_replaceItems:
  "JSON_stringify num (replaceItems c v) = replaceItems (map (JSON_stringify num) c) (JSON_stringify num v)"
  by (cases v) (simp_all add: replaceItems_def split: option.splits)

lemma JSON_stringify_eraseGroupJ:
  "JSON_stringify num (eraseGroupJ g) = eraseGroupJ (JSON_stringify num g)"
  unfolding eraseGroupJ_def
  by (rule JSON_stringify_updateProp) (simp add: JSON_stringify_replaceItems)

lemma JSON_stringify_eraseSectionJ:
  "JSON_stringify num (eraseSectionJ s) = eraseSectionJ (JSON_stringify num s)"
proof -
  have a: "JSON_stringify num (updateProp ''children'' (replaceItems []) s)
           = updateProp ''children'' (replaceItems []) (JSON_stringify num s)"
    by (rule JSON_stringify_updateProp) (simp add: JSON_stringify_replaceItems)
  have b: "JSON_stringify num (mapItems eraseGroupJ x) = mapItems eraseGroupJ (JSON_stringify num x)" for x :: "'a json"
    by (rule JSON_stringify_mapItems) (rule JSON_stringify_eraseGroupJ)
  show ?thesis
    unfolding eraseSectionJ_def a[symmetric]
    by (rule JSON_stringify_updateProp) (rule b)
qed

lemma JSON_stringify_eraseChildrenJ:
  "JSON_stringify num (eraseChildrenJ v) = eraseChildrenJ (JSON_stringify num v)"
proof -
  have b: "JSON_stringify num (mapItems eraseSectionJ x) = mapItems eraseSectionJ (JSON_stringify num x)" for x :: "'a json"
    by (rule JSON_stringify_mapItems) (rule JSON_stringify_eraseSectionJ)
  show ?thesis
    unfolding eraseChildrenJ_def
    by (rule JSON_stringify_updateProp) (rule b)
qed

lemma map_of_filter_key:
  "(\<And>p. fst p = k \<Longrightarrow> P p) \<Longrightarrow> map_of (filter P xs) k = map_of xs k"
  by (induction xs) auto

lemma map_of_sort_key:
  "map_of (sort_key (\<lambda>p. f (fst p)) xs) k = map_of xs k"
proof -
  let ?P = "\<lambda>p. f (fst p) = f k"
  have "map_of (sort_key (\<lambda>p. f (fst p)) xs) k
        = map_of (filter ?P (sort_key (\<lambda>p. f (fst p)) xs)) k"
    by (rule map_of_filter_key[symmetric]) simp
  also have "filter ?P (sort_key (\<lambda>p. f (fst p)) xs) = filter ?P xs"
    by (rule sort_key_stable)
  also have "map_of (filter ?P xs) k = map_of xs k"
    by (rule map_of_filter_key) simp
  finally show ?thesis .
qed

lemma map_of_ownProperties: "map_of (ownProperties ps) k = map_of ps k"
proof (cases "isArrayIndex k")
  case True
  have "map_of (sort_key (\<lambda>p. decimalValue (fst p)) (filter (\<lambda>p. isArrayIndex (fst p)) ps)) k
        = map_of (filter (\<lambda>p. isArrayIndex (fst p)) ps) k"
    by (rule map_of_sort_key)
  also have "\<dots> = map_of ps k"
    by (rule map_of_filter_key) (simp add: True)
  finally have a: "map_of (sort_key (\<lambda>p. decimalValue (fst p))
                      (filter (\<lambda>p. isArrayIndex (fst p)) ps)) k = map_of ps k" .
  have b: "map_of (filter (\<lambda>p. \<not> isArrayIndex (fst p)) ps) k = None"
    using True by (induction ps) auto
  show ?thesis
    unfolding ownProperties_def by (simp add: map_add_def a b split: option.splits)
next
  case False
  have "k \<notin> fst ` set (sort_key (\<lambda>p. decimalValue (fst p)) (filter (\<lambda>p. isArrayIndex (fst p)) ps))"
    using False by auto
  then have a: "map_of (sort_key (\<lambda>p. decimalValue (fst p))
                      (filter (\<lambda>p. isArrayIndex (fst p)) ps)) k = None"
    by (simp add: map_of_eq_None_iff)
  have b: "map_of (filter (\<lambda>p. \<not> isArrayIndex (fst p)) ps) k = map_of ps k"
    by (rule map_of_filter_key) (simp add: False)
  show ?thesis
    unfolding ownProperties_def by (simp add: map_add_def a b)
qed

lemma map_of_map_prod:
  "map_of (map (map_prod id f) ps) k = map_option f (map_of ps k)"
  by (induction ps) auto

lemma getProp_JSON_stringify:
  "getProp (JSON_stringify num v) k = map_option (JSON_stringify num) (getProp v k)"
  by (cases v) (simp_all add: getProp_def map_of_ownProperties map_of_map_prod split: option.splits)

lemma arrayItems_JSON_stringify:
  "arrayItems (map_option (JSON_stringify num) x) = map (JSON_stringify num) (arrayItems x)"
  by (auto simp: arrayItems_def split: option.splits json.splits)

lemma isArray_JSON_stringify [simp]: "isArray (map_option (JSON_stringify num) x) = isArray x"
  by (auto simp: isArray_def split: option.splits json.splits)

lemma stringValue_JSON_stringify [simp]:
  "stringValue (map_option (JSON_stringify num) x) = stringValue x"
  by (auto simp: stringValue_def split: option.splits json.splits)

lemma entryTo_JSON_stringify [simp]: "entryTo (JSON_stringify num e) = entryTo e"
  by (simp add: entryTo_def getProp_JSON_stringify)

lemma sectionsJ_JSON_stringify:
  "sectionsJ (JSON_stringify num v) = map (JSON_stringify num) (sectionsJ v)"
  by (simp add: sectionsJ_def getProp_JSON_stringify arrayItems_JSON_stringify)

lemma childrenJ_JSON_stringify:
  "childrenJ (JSON_stringify num v) = map (JSON_stringify num) (childrenJ v)"
  by (simp add: childrenJ_def getProp_JSON_stringify arrayItems_JSON_stringify)

lemma frameworksJ_JSON_stringify:
  "frameworksJ (JSON_stringify num v) = map (JSON_stringify num) (frameworksJ v)"
  by (simp add: frameworksJ_def getProp_JSON_stringify arrayItems_JSON_stringify)

lemma validJ_JSON_stringify [simp]: "validJ (JSON_stringify num v) pl = validJ v pl"
  by (cases "frameworkIx pl")
     (auto simp: validJ_def Let_def sectionsJ_JSON_stringify frameworksJ_JSON_stringify
        getProp_JSON_stringify)

lemma getContainerJ_JSON_stringify:
  "validJ v pl \<Longrightarrow> getContainerJ (JSON_stringify num v) pl = map (JSON_stringify num) (getContainerJ v pl)"
  by (cases "frameworkIx pl")
     (auto simp: validJ_def getContainerJ_def Let_def sectionsJ_JSON_stringify
        frameworksJ_JSON_stringify childrenJ_JSON_stringify)

lemma keepJ_JSON_stringify:
  "keepJ S (map (JSON_stringify num) c) = map (JSON_stringify num) (keepJ S c)"
  by (simp add: keepJ_def filter_map o_def)

text \<open>A text without repeated keys and without keys that are array indices is read and
  written as it is.\<close>

lemma createDataProperty_fresh:
  "fst m \<notin> fst ` set ps \<Longrightarrow> createDataProperty ps m = ps @ [m]"
  by (induction ps) auto

lemma foldl_createDataProperty_distinct:
  "distinct (map fst (acc @ ms)) \<Longrightarrow> foldl createDataProperty acc ms = acc @ ms"
proof (induction ms arbitrary: acc)
  case Nil
  then show ?case by simp
next
  case (Cons m ms)
  have f: "fst m \<notin> fst ` set acc" using Cons.prems by auto
  have d: "distinct (map fst ((acc @ [m]) @ ms))" using Cons.prems by simp
  show ?case
    using Cons.IH[OF d] by (simp add: createDataProperty_fresh[OF f])
qed

lemma ownProperties_plain:
  "list_all (\<lambda>m. \<not> isArrayIndex (fst m)) ps \<Longrightarrow> ownProperties ps = ps"
proof -
  assume a: "list_all (\<lambda>m. \<not> isArrayIndex (fst m)) ps"
  have "filter (\<lambda>p. isArrayIndex (fst p)) ps = []"
    using a by (induction ps) auto
  moreover have "filter (\<lambda>p. \<not> isArrayIndex (fst p)) ps = ps"
    using a by (induction ps) auto
  ultimately show ?thesis by (simp add: ownProperties_def)
qed

lemma plainText_members:
  "list_all snd (map (map_prod id (plainText num)) ms) \<longleftrightarrow> (\<forall>m \<in> set ms. plainText num (snd m))"
  by (induction ms) auto

lemma plainText_elements:
  "list_all id (map (plainText num) xs) \<longleftrightarrow> (\<forall>x \<in> set xs. plainText num x)"
  by (induction xs) auto

lemma JSON_parse_plain: "plainText num v \<Longrightarrow> JSON_parse v = v"
proof (induction v)
  case (JArr xs)
  then show ?case by (simp add: plainText_elements map_idI)
next
  case (JObj ms)
  have m: "\<forall>m \<in> set ms. plainText num (snd m)"
    using JObj.prems by (simp add: plainText_members)
  have "map (map_prod id JSON_parse) ms = ms"
  proof (rule map_idI)
    fix p assume p: "p \<in> set ms"
    have "JSON_parse (snd p) = snd p"
      using JObj.IH[of p "snd p"] p m by (cases p) auto
    then show "map_prod id JSON_parse p = p" by (cases p) simp
  qed
  moreover have "foldl createDataProperty [] ms = [] @ ms"
    by (rule foldl_createDataProperty_distinct) (use JObj.prems in simp)
  ultimately show ?case by simp
qed simp_all

lemma JSON_stringify_plain: "plainText num v \<Longrightarrow> JSON_stringify num v = v"
proof (induction v)
  case (JArr xs)
  then show ?case by (simp add: plainText_elements map_idI)
next
  case (JObj ms)
  have m: "\<forall>m \<in> set ms. plainText num (snd m)"
    using JObj.prems by (simp add: plainText_members)
  have "map (map_prod id (JSON_stringify num)) ms = ms"
  proof (rule map_idI)
    fix p assume p: "p \<in> set ms"
    have "JSON_stringify num (snd p) = snd p"
      using JObj.IH[of p "snd p"] p m by (cases p) auto
    then show "map_prod id (JSON_stringify num) p = p" by (cases p) simp
  qed
  moreover have "ownProperties ms = ms"
    by (rule ownProperties_plain) (use JObj.prems in simp)
  ultimately show ?case by simp
qed simp_all

lemma plainText_arrayItems:
  "plainText num v \<Longrightarrow> x \<in> set (arrayItems (getProp v k)) \<Longrightarrow> plainText num x"
proof (cases v)
  case (JObj ms)
  assume p: "plainText num v" and x: "x \<in> set (arrayItems (getProp v k))"
  then obtain xs where g: "map_of ms k = Some (JArr xs)" "x \<in> set xs"
    using JObj by (auto simp: arrayItems_def getProp_def split: option.splits json.splits)
  have "(k, JArr xs) \<in> set ms" using g(1) by (rule map_of_SomeD)
  then have "plainText num (JArr xs)" using p JObj by (auto simp: plainText_members)
  then show ?thesis using g(2) by (simp add: plainText_elements)
qed (simp_all add: arrayItems_def getProp_def)

lemma plainText_getContainerJ:
  assumes "plainText num v" "validJ v pl" "e \<in> set (getContainerJ v pl)"
  shows "plainText num e"
proof -
  let ?s = "sectionsJ v ! sectionIx pl"
  have "?s \<in> set (sectionsJ v)" using assms(2) by (simp add: validJ_def)
  then have s: "plainText num ?s"
    using assms(1) plainText_arrayItems unfolding sectionsJ_def by blast
  show ?thesis
  proof (cases "frameworkIx pl")
    case None
    then have "e \<in> set (arrayItems (getProp ?s ''children''))"
      using assms(3) by (simp add: getContainerJ_def childrenJ_def)
    then show ?thesis using s plainText_arrayItems by blast
  next
    case (Some j)
    let ?g = "frameworksJ ?s ! j"
    have "?g \<in> set (frameworksJ ?s)" using assms(2) Some by (simp add: validJ_def Let_def)
    then have g: "plainText num ?g"
      using s plainText_arrayItems unfolding frameworksJ_def by blast
    have "e \<in> set (arrayItems (getProp ?g ''children''))"
      using assms(3) Some by (simp add: getContainerJ_def childrenJ_def)
    then show ?thesis using g plainText_arrayItems by blast
  qed
qed

lemma label_to_plain: "\<not> isArrayIndex ''label''" "\<not> isArrayIndex ''to''"
  by code_simp+

lemma JSON_stringify_new: "isNewEntry e \<Longrightarrow> JSON_stringify num e = e"
proof -
  assume "isNewEntry e"
  then have e: "e = navItemJ (entryLabel e) (entryTo e)" by (simp add: isNewEntry_def)
  have "JSON_stringify num (navItemJ l r) = navItemJ l r" for l r
    by (simp add: navItemJ_def ownProperties_plain label_to_plain)
  then show ?thesis using e by metis
qed

lemma keysOf_updateProp [simp]: "keysOf (updateProp k f v) = keysOf v"
  by (cases v) (simp_all add: keysOf_def updateProp_def o_def)

lemma arrayItems_mapItems:
  "arrayItems (map_option (mapItems f) x) = map f (arrayItems x)"
  by (auto simp: arrayItems_def mapItems_def split: option.splits json.splits)

lemma eraseChildrenJ_consequences:
  assumes "eraseChildrenJ w = eraseChildrenJ d"
  shows "keysOf w = keysOf d"
    and "k \<noteq> ''sections'' \<Longrightarrow> getProp w k = getProp d k"
    and "map eraseSectionJ (sectionsJ w) = map eraseSectionJ (sectionsJ d)"
proof -
  show "keysOf w = keysOf d"
    using arg_cong[OF assms, of keysOf] by (simp add: eraseChildrenJ_def)
  show "getProp w k = getProp d k" if "k \<noteq> ''sections''"
    using arg_cong[OF assms, of "\<lambda>v. getProp v k"] that
    by (simp add: eraseChildrenJ_def getProp_updateProp)
  show "map eraseSectionJ (sectionsJ w) = map eraseSectionJ (sectionsJ d)"
    using arg_cong[OF assms, of "\<lambda>v. arrayItems (getProp v ''sections'')"]
    by (simp add: eraseChildrenJ_def getProp_updateProp arrayItems_mapItems sectionsJ_def)
qed

lemma processDocsConfigFile_written:
  "fst (snd (processDocsConfigFile num cwd fs cache dir document))
     = writeJson num (fst (snd (processDocsConfigJ cwd fs cache dir (readJson document))))"
  by (simp add: processDocsConfigFile_def split: prod.splits)

section \<open>The claims\<close>

subsection \<open>C1: a second pass\<close>




subsection \<open>C2: routes are unique within a container\<close>

text \<open>
  C2. When the entries of a container have pairwise different routes, \<^verbatim>\<open>ensureNavItem\<close>
  keeps them so: with an entry of the incoming route present the container is returned
  as it is (the stored label included), nothing is logged as added, and a label that
  differs is recorded under \<^verbatim>\<open>labelMismatch\<close> only; otherwise the item is appended at the
  end and logged as added. A pass, and so any number of passes, keeps the routes of
  every container of the configuration pairwise different.
\<close>

theorem container_uniqueness:
  assumes "distinct (map to container)" and "uniqueRoutes config"
  shows "distinct (map to (fst (ensureNavItem container item lg)))
       \<and> fst (ensureNavItem container item lg)
           = (if to item \<in> to ` set container then container else container @ [item])
       \<and> added (snd (ensureNavItem container item lg))
           = (if to item \<in> to ` set container then added lg
              else added lg @ [label item @ '' -> '' @ to item])
       \<and> labelMismatch (snd (ensureNavItem container item lg))
           = (case find (\<lambda>entry. to entry = to item) container of
                Some found \<Rightarrow>
                  if label found \<noteq> label item
                  then labelMismatch lg
                       @ [\<lparr>lm_to = to item, existing = label found, incoming = label item\<rparr>]
                  else labelMismatch lg
              | None \<Rightarrow> labelMismatch lg)
       \<and> uniqueRoutes (fst (snd (processDocsConfig cwd fs cache dir config)))
       \<and> uniqueRoutes (runPasses cwd dir envs config)"
proof -
  have lg: "added (snd (ensureNavItem container item lg))
           = (if to item \<in> to ` set container then added lg
              else added lg @ [label item @ '' -> '' @ to item])"
    using find_None_to[of "to item" container]
    by (cases "find (\<lambda>entry. to entry = to item) container")
       (simp_all add: ensureNavItem_def)
  have lm: "labelMismatch (snd (ensureNavItem container item lg))
           = (case find (\<lambda>entry. to entry = to item) container of
                Some found \<Rightarrow>
                  if label found \<noteq> label item
                  then labelMismatch lg
                       @ [\<lparr>lm_to = to item, existing = label found, incoming = label item\<rparr>]
                  else labelMismatch lg
              | None \<Rightarrow> labelMismatch lg)"
    by (cases "find (\<lambda>entry. to entry = to item) container")
       (simp_all add: ensureNavItem_def)
  show ?thesis
    using assms lg lm
    by (simp add: ensureNavItem_distinct ensureNavItem_container processDocsConfig_uniqueRoutes
          runPasses_uniqueRoutes)
qed

theorem container_uniqueness_witness:
  "distinct (map to [navItem ''Intro'' ''a/b''])
   \<and> uniqueRoutes (exConfig [navItem ''Intro'' ''a/b''] [])
   \<and> fst (ensureNavItem [navItem ''Intro'' ''a/b''] (navItem ''Other'' ''a/b'') emptyLog)
       = [navItem ''Intro'' ''a/b'']
   \<and> fst (ensureNavItem [navItem ''Intro'' ''a/b''] (navItem ''Other'' ''a/c'') emptyLog)
       = [navItem ''Intro'' ''a/b'', navItem ''Other'' ''a/c'']
   \<and> labelMismatch (snd (ensureNavItem [navItem ''Intro'' ''a/b''] (navItem ''Other'' ''a/b'')
         emptyLog))
       = [\<lparr>lm_to = ''a/b'', existing = ''Intro'', incoming = ''Other''\<rparr>]
   \<and> uniqueRoutes (runPasses exCwd exDir
         [([(''/r/docs/x/a/b/c.md'', doc ''title: C'')], Map.empty)]
         (exConfig [navItem ''Intro'' ''a/b''] []))"
proof -
  have d: "distinct (map to [navItem ''Intro'' ''a/b''])" by simp
  have u: "uniqueRoutes (exConfig [navItem ''Intro'' ''a/b''] [])"
    by (simp add: uniqueRoutes_def containers_def exConfig_def fwList_def)
  show ?thesis
    using d u
      container_uniqueness[OF d u, of "navItem ''Other'' ''a/b''" emptyLog]
      container_uniqueness[OF d u, of "navItem ''Other'' ''a/c''" emptyLog exCwd
         "[(''/r/docs/x/a/b/c.md'', doc ''title: C'')]" Map.empty exDir
         "[([(''/r/docs/x/a/b/c.md'', doc ''title: C'')], Map.empty)]"]
    by (simp add: emptyLog_def)
qed

subsection \<open>C3: placement below an ancestor\<close>

text \<open>
  C3, as amended. Let \<open>p\<close> be the non-empty parent route of \<open>r\<close>, let the configuration
  have an entry with route \<open>p\<close>, \<open>plp\<close> being the last registered container that holds
  one, and no entry with route \<open>r\<close>. Then \<^verbatim>\<open>findPlacement\<close> finds for \<open>r\<close> the container
  \<open>pl\<close> of the first registered entry below \<open>r\<close> (one with \<open>r\<close> among its ancestor
  routes) if there is one, and \<open>plp\<close> otherwise; \<open>pl\<close> holds an entry with route \<open>p\<close>
  exactly when no entry is below \<open>r\<close> or the first one registered is in a container that
  holds one. Let \<open>f\<close> be a listed file with route \<open>r\<close> that the pass places (not a
  readme, not a draft, with a resolved non-empty title \<open>t\<close>, not skipped), no file with
  this route listed before it being one. The step of the loop for \<open>f\<close> appends the
  entry with the trimmed title and the route to \<open>pl\<close> and logs it under \<^verbatim>\<open>added\<close>. The
  entry is in \<open>pl\<close> when the loop ends, and in the configuration written unless a file
  with the same route makes the route skip-eligible.
\<close>

theorem ancestor_placement:
  assumes "parentRoute r = p" and "p \<noteq> []"
    and "find (\<lambda>rp. fst rp = p) (rev (registrations config)) = Some (p, plp)"
    and "r \<notin> fst ` set (registrations config)"
    and "listContentFiles fs dir = pre @ f # post"
    and "f \<noteq> join dir ''config.json''" and "routeFromFile cwd dir f = r"
    and "\<forall>g \<in> set pre. routeFromFile cwd dir g = r
           \<longrightarrow> \<not> placeable cwd (st_cache (scanFiles cwd fs cache dir config)) g"
    and "placeable cwd (st_cache (scanFiles cwd fs cache dir config)) f"
    and "t = resolvedTitle (cachedInfo (st_cache (scanFiles cwd fs cache dir config)) cwd f)"
    and "pl = placementBelow config r plp"
  shows "findPlacement r (buildPlacementIndex config) = Some pl
       \<and> validPlacement config pl
       \<and> (p \<in> to ` set (getContainer config pl)
            \<longleftrightarrow> (\<forall>rp. find (\<lambda>rp. r \<in> set (ancestorRoutes (fst rp))) (registrations config)
                        = Some rp
                     \<longrightarrow> p \<in> to ` set (getContainer config (snd rp))))
       \<and> getContainer (st_config (loopState cwd fs cache dir config (pre @ [f]))) pl
           = getContainer (st_config (loopState cwd fs cache dir config pre)) pl
             @ [\<lparr>label = trim t, to = r, badge = None\<rparr>]
       \<and> added (st_log (loopState cwd fs cache dir config (pre @ [f])))
           = added (st_log (loopState cwd fs cache dir config pre)) @ [trim t @ '' -> '' @ r]
       \<and> \<lparr>label = trim t, to = r, badge = None\<rparr>
           \<in> set (getContainer (st_config (scanFiles cwd fs cache dir config)) pl)
       \<and> trim t @ '' -> '' @ r \<in> set (added (fst (processDocsConfig cwd fs cache dir config)))
       \<and> (r \<notin> st_skipRoutes (scanFiles cwd fs cache dir config)
            \<longrightarrow> \<lparr>label = trim t, to = r, badge = None\<rparr>
                  \<in> set (getContainer (fst (snd (processDocsConfig cwd fs cache dir config))) pl))"
proof -
  let ?index = "buildPlacementIndex config"
  let ?cp = "join dir ''config.json''"
  let ?e = "\<lparr>label = trim t, to = r, badge = None\<rparr>"
  have sc: "scanFiles cwd fs cache dir config
            = foldl (processFile cwd fs dir ?cp ?index) (initialState config cache) (pre @ f # post)"
    by (simp only: scanFiles_def assms(5))
  have fp: "findPlacement r ?index = Some pl"
    unfolding assms(11) using assms(1-4) by (rule findPlacement_below(1))
  have v: "validPlacement config pl"
    unfolding assms(11) using assms(1-4) by (rule findPlacement_below(2))
  have holds: "p \<in> to ` set (getContainer config pl)
            \<longleftrightarrow> (\<forall>rp. find (\<lambda>rp. r \<in> set (ancestorRoutes (fst rp))) (registrations config)
                        = Some rp
                     \<longrightarrow> p \<in> to ` set (getContainer config (snd rp)))"
    unfolding assms(11) using assms(3) by (rule placementBelow_holds)
  have nr: "r \<notin> to ` set (getContainer config pl)"
  proof
    assume "r \<in> to ` set (getContainer config pl)"
    then have "(r, pl) \<in> set (registrations config)" using v by (simp add: registrations_iff)
    then show False using assms(4) by force
  qed
  have pb: "placeable cwd (st_cache (foldl (processFile cwd fs dir ?cp ?index)
                 (initialState config cache) (pre @ f # post))) f"
    using assms(9) by (simp only: sc)
  have fst: "\<forall>g \<in> set pre. routeFromFile cwd dir g = r
                  \<longrightarrow> \<not> placeable cwd (st_cache (foldl (processFile cwd fs dir ?cp ?index)
                         (initialState config cache) (pre @ f # post))) g"
    using assms(8) by (simp only: sc)
  note F = first_file_placed[OF fp v nr assms(6) assms(7) fst pb]
  have c4: "getContainer (st_config (loopState cwd fs cache dir config (pre @ [f]))) pl
           = getContainer (st_config (loopState cwd fs cache dir config pre)) pl @ [?e]"
    unfolding loopState_def assms(10) sc by (rule F(1))
  have c5: "added (st_log (loopState cwd fs cache dir config (pre @ [f])))
           = added (st_log (loopState cwd fs cache dir config pre)) @ [trim t @ '' -> '' @ r]"
    unfolding loopState_def assms(10) sc by (rule F(2))
  have c6: "?e \<in> set (getContainer (st_config (scanFiles cwd fs cache dir config)) pl)"
    unfolding assms(10) sc by (rule F(3))
  have "trim t @ '' -> '' @ r \<in> set (added (st_log (scanFiles cwd fs cache dir config)))"
    unfolding assms(10) sc by (rule F(4))
  then have c7: "trim t @ '' -> '' @ r \<in> set (added (fst (processDocsConfig cwd fs cache dir config)))"
    by (simp only: final_added)
  have c8: "?e \<in> set (getContainer (fst (snd (processDocsConfig cwd fs cache dir config))) pl)"
    if "r \<notin> st_skipRoutes (scanFiles cwd fs cache dir config)"
    using final_container_pruned[OF v, of cwd fs cache dir] c6 that
    by (simp add: keepEntries_def)
  have c8': "r \<notin> st_skipRoutes (scanFiles cwd fs cache dir config)
            \<longrightarrow> ?e \<in> set (getContainer (fst (snd (processDocsConfig cwd fs cache dir config))) pl)"
    using c8 by blast
  from fp v holds c4 c5 c6 c7 c8' show ?thesis by (intro conjI)
qed

theorem ancestor_placement_witness:
  "parentRoute ''a/b/c'' = ''a/b''
   \<and> registrations belowConfig
       = [(''a/b'', \<lparr>sectionIx = 0, frameworkIx = None\<rparr>),
          (''a/b/c/d'', \<lparr>sectionIx = 0, frameworkIx = None\<rparr>)]
   \<and> ancestorRoutes ''a/b/c/d'' = [''a/b/c/d'', ''a/b/c'', ''a/b'', ''a'']
   \<and> listContentFiles belowFs exDir
       = [''/r/docs/x/a/b.md'', ''/r/docs/x/a/b/c.md'', ''/r/docs/x/a/b/c.mdx'']
   \<and> routeFromFile exCwd exDir ''/r/docs/x/a/b.md'' = ''a/b''
   \<and> routeFromFile exCwd exDir ''/r/docs/x/a/b/c.md'' = ''a/b/c''
   \<and> routeFromFile exCwd exDir ''/r/docs/x/a/b/c.mdx'' = ''a/b/c''
   \<and> placeable exCwd (st_cache (scanFiles exCwd belowFs Map.empty exDir belowConfig))
         ''/r/docs/x/a/b/c.md''
   \<and> resolvedTitle (cachedInfo (st_cache (scanFiles exCwd belowFs Map.empty exDir belowConfig))
         exCwd ''/r/docs/x/a/b/c.md'') = ''C''
   \<and> find (\<lambda>rp. ''a/b/c'' \<in> set (ancestorRoutes (fst rp))) (registrations belowConfig)
       = Some (''a/b/c/d'', \<lparr>sectionIx = 0, frameworkIx = None\<rparr>)
   \<and> placementBelow belowConfig ''a/b/c'' \<lparr>sectionIx = 0, frameworkIx = None\<rparr>
       = \<lparr>sectionIx = 0, frameworkIx = None\<rparr>
   \<and> st_skipRoutes (scanFiles exCwd belowFs Map.empty exDir belowConfig) = {}
   \<and> findPlacement ''a/b/c'' (buildPlacementIndex belowConfig)
       = Some \<lparr>sectionIx = 0, frameworkIx = None\<rparr>
   \<and> ''a/b'' \<in> to ` set (getContainer belowConfig \<lparr>sectionIx = 0, frameworkIx = None\<rparr>)
   \<and> navItem ''C'' ''a/b/c''
       \<in> set (getContainer (fst (snd (processDocsConfig exCwd belowFs Map.empty exDir belowConfig)))
                \<lparr>sectionIx = 0, frameworkIx = None\<rparr>)
   \<and> getContainer (fst (snd (processDocsConfig exCwd belowFs Map.empty exDir belowConfig)))
         \<lparr>sectionIx = 0, frameworkIx = None\<rparr>
       = [navItem ''B'' ''a/b'', navItem ''D'' ''a/b/c/d'', navItem ''C'' ''a/b/c'']
   \<and> added (fst (processDocsConfig exCwd belowFs Map.empty exDir belowConfig))
       = [''C -> a/b/c'']"
proof -
  let ?pl = "\<lparr>sectionIx = 0, frameworkIx = None\<rparr>"
  let ?st = "scanFiles exCwd belowFs Map.empty exDir belowConfig"
  let ?out = "processDocsConfig exCwd belowFs Map.empty exDir belowConfig"
  have h1: "parentRoute ''a/b/c'' = ''a/b''" by code_simp
  have h2: "''a/b'' \<noteq> []" by simp
  have regs: "registrations belowConfig = [(''a/b'', ?pl), (''a/b/c/d'', ?pl)]" by code_simp
  have h3: "find (\<lambda>rp. fst rp = ''a/b'') (rev (registrations belowConfig)) = Some (''a/b'', ?pl)"
    by (simp add: regs)
  have h4: "''a/b/c'' \<notin> fst ` set (registrations belowConfig)" by (simp add: regs)
  have h5: "listContentFiles belowFs exDir
            = [''/r/docs/x/a/b.md''] @ ''/r/docs/x/a/b/c.md'' # [''/r/docs/x/a/b/c.mdx'']"
    by code_simp
  have h7b: "routeFromFile exCwd exDir ''/r/docs/x/a/b.md'' = ''a/b''" by code_simp
  have h6: "''/r/docs/x/a/b/c.md'' \<noteq> join exDir ''config.json''" by code_simp
  have h7: "routeFromFile exCwd exDir ''/r/docs/x/a/b/c.md'' = ''a/b/c''" by code_simp
  have h7': "routeFromFile exCwd exDir ''/r/docs/x/a/b/c.mdx'' = ''a/b/c''" by code_simp
  have h8: "\<forall>g \<in> set [''/r/docs/x/a/b.md'']. routeFromFile exCwd exDir g = ''a/b/c''
              \<longrightarrow> \<not> placeable exCwd (st_cache ?st) g"
    by (simp add: h7b)
  have h9: "placeable exCwd (st_cache ?st) ''/r/docs/x/a/b/c.md''" by code_simp
  have h10: "''C'' = resolvedTitle (cachedInfo (st_cache ?st) exCwd ''/r/docs/x/a/b/c.md'')"
    by code_simp
  have a1: "ancestorRoutes ''a/b'' = [''a/b'', ''a'']" by code_simp
  have a2: "ancestorRoutes ''a/b/c/d'' = [''a/b/c/d'', ''a/b/c'', ''a/b'', ''a'']" by code_simp
  have h11: "?pl = placementBelow belowConfig ''a/b/c'' ?pl"
    by (simp add: placementBelow_def regs a1 a2)
  have g: "getContainer belowConfig ?pl = [navItem ''B'' ''a/b'', navItem ''D'' ''a/b/c/d'']"
    by code_simp
  have fb: "find (\<lambda>rp. ''a/b/c'' \<in> set (ancestorRoutes (fst rp))) (registrations belowConfig)
            = Some (''a/b/c/d'', ?pl)"
    by (simp add: regs a1 a2)
  have hb: "\<forall>rp. find (\<lambda>rp. ''a/b/c'' \<in> set (ancestorRoutes (fst rp))) (registrations belowConfig)
                = Some rp
              \<longrightarrow> ''a/b'' \<in> to ` set (getContainer belowConfig (snd rp))"
    by (simp add: fb g)
  have sk: "st_skipRoutes ?st = {}" by code_simp
  have out: "getContainer (fst (snd ?out)) ?pl
       = [navItem ''B'' ''a/b'', navItem ''D'' ''a/b/c/d'', navItem ''C'' ''a/b/c'']"
    by code_simp
  have ad: "added (fst ?out) = [''C -> a/b/c'']" by code_simp
  have tr: "trim ''C'' = ''C''" by code_simp
  note T = ancestor_placement[OF h1 h2 h3 h4 h5 h6 h7 h8 h9 h10 h11]
  note T1 = T[THEN conjunct1]
  note T3 = T[THEN conjunct2, THEN conjunct2, THEN conjunct1]
  note T8 = T[THEN conjunct2, THEN conjunct2, THEN conjunct2, THEN conjunct2, THEN conjunct2,
              THEN conjunct2, THEN conjunct2]
  have c3: "''a/b'' \<in> to ` set (getContainer belowConfig ?pl)"
    using T3 hb by blast
  have "''a/b/c'' \<notin> st_skipRoutes ?st" by (simp add: sk)
  with T8 have "\<lparr>label = trim ''C'', to = ''a/b/c'', badge = None\<rparr>
      \<in> set (getContainer (fst (snd ?out)) ?pl)"
    by blast
  then have c8: "navItem ''C'' ''a/b/c'' \<in> set (getContainer (fst (snd ?out)) ?pl)"
    by (simp only: tr navItem_def)
  have h5': "listContentFiles belowFs exDir
             = [''/r/docs/x/a/b.md'', ''/r/docs/x/a/b/c.md'', ''/r/docs/x/a/b/c.mdx'']"
    using h5 by simp
  from h1 regs a2 h5' h7b h7 h7' h9 h10[symmetric] fb h11[symmetric] sk T1 c3 c8 out ad
  show ?thesis by (intro conjI)
qed

text \<open>
  C3 as stated fails when an entry below \<open>a/b/c\<close> was registered first in another
  container: with \<open>a/b/c/d\<close> in the first section and \<open>a/b\<close> in the second, and no entry
  for \<open>a/b/c\<close>, the index has the first section for \<open>a/b/c\<close> in \<^verbatim>\<open>byDir\<close>, and the pass
  appends the new entry there, not to the container that holds \<open>a/b\<close>.
\<close>

theorem ancestor_placement_counterexample:
  "getContainer (exConfig [navItem ''D'' ''a/b/c/d''] [navItem ''B'' ''a/b''])
       \<lparr>sectionIx = 1, frameworkIx = None\<rparr> = [navItem ''B'' ''a/b'']
   \<and> containers (exConfig [navItem ''D'' ''a/b/c/d''] [navItem ''B'' ''a/b''])
       = [[navItem ''D'' ''a/b/c/d''], [navItem ''B'' ''a/b'']]
   \<and> listContentFiles [(''/r/docs/x/a/b/c.md'', doc ''title: C'')] exDir = [''/r/docs/x/a/b/c.md'']
   \<and> routeFromFile exCwd exDir ''/r/docs/x/a/b/c.md'' = ''a/b/c''
   \<and> findPlacement ''a/b/c''
         (buildPlacementIndex (exConfig [navItem ''D'' ''a/b/c/d''] [navItem ''B'' ''a/b'']))
       = Some \<lparr>sectionIx = 0, frameworkIx = None\<rparr>
   \<and> fst (snd (processDocsConfig exCwd [(''/r/docs/x/a/b/c.md'', doc ''title: C'')] Map.empty
          exDir (exConfig [navItem ''D'' ''a/b/c/d''] [navItem ''B'' ''a/b''])))
       = exConfig [navItem ''D'' ''a/b/c/d'', navItem ''C'' ''a/b/c''] [navItem ''B'' ''a/b'']"
  by code_simp

subsection \<open>C4: skip-eligible routes are pruned\<close>




subsection \<open>C5: a reference passes on the title and the skip flag\<close>

text \<open>
  C5. A file that is not cached yet and whose header has only a \<^verbatim>\<open>ref\<close> (no title, no
  skip key), the reference resolving to a file \<open>other\<close> off the stack whose own
  information has the non-empty title \<open>t\<close>: \<^verbatim>\<open>readDocInfo\<close> gives the file the title
  \<open>t\<close>, and the skip flag \<^verbatim>\<open>true\<close> exactly when \<open>other\<close> has it. In the pass such a file
  with a skipped target gets its route into the skip-eligible set. The example below is a file
  with \<^verbatim>\<open>ref: ./other.md\<close> next to an \<^verbatim>\<open>other.md\<close> with \<^verbatim>\<open>title: Foo\<close> and \<^verbatim>\<open>skip: true\<close>.
\<close>

theorem ref_inheritance:
  assumes "cache (resolve cwd [filePath]) = None"
    and "readFile cwd fs filePath = Some raw"
    and "frontmatterBlock raw = Some block"
    and "parseBlock block = \<lparr>title = None, skip = None, ref = Some rv\<rparr>"
    and "resolveRefPath cwd filePath rv dir = Some other"
    and "other \<notin> stack"
    and "fst (readDocInfo cwd fs cache other dir (insert other stack)) = Some otherInfo"
    and "title otherInfo = Some t" and "t \<noteq> []"
  shows "fst (readDocInfo cwd fs cache filePath dir stack)
           = Some \<lparr>title = Some t,
                   skip = (if skip otherInfo = Some True then Some True else None),
                   ref = Some rv\<rparr>
       \<and> (stack = {} \<and> st_cache st = cache \<and> skip otherInfo = Some True
            \<and> filePath \<noteq> configPath
            \<and> \<not> isReadme (basename filePath) \<and> \<not> isDraft (basename filePath)
          \<longrightarrow> routeFromFile cwd dir filePath
                \<in> st_skipRoutes (processFile cwd fs dir configPath index st filePath))"
proof -
  have rv: "rv \<noteq> []"
    using assms(5) by (auto simp: resolveRefPath_def Let_def split: if_splits)
  have nt: "\<not> truthy (title (parseBlock block))" and r: "ref (parseBlock block) = Some rv"
    using assms(4) by (simp_all add: truthy_def)
  have info: "fst (readDocInfo cwd fs cache filePath dir stack)
           = Some \<lparr>title = Some t,
                   skip = (if skip otherInfo = Some True then Some True else None),
                   ref = Some rv\<rparr>"
    using readDocInfo_follow[OF _ assms(2,3) nt r rv assms(5,6), of cache] assms(1,4,7-9)
    by (simp add: adopt_def truthy_def)
  have "routeFromFile cwd dir filePath
          \<in> st_skipRoutes (processFile cwd fs dir configPath index st filePath)"
    if "stack = {}" "st_cache st = cache" "skip otherInfo = Some True"
       "filePath \<noteq> configPath" "\<not> isReadme (basename filePath)" "\<not> isDraft (basename filePath)"
    using that info assms(9)
    by (simp add: processFile_unfold fileInfo_def resolvedTitle_def resolvedSkip_def)
  then show ?thesis using info by blast
qed

theorem ref_inheritance_witness:
  "Map.empty (resolve exCwd [''/r/docs/x/a/page.md'']) = None
   \<and> readFile exCwd refFs ''/r/docs/x/a/page.md'' = Some (doc ''ref: ./other.md'')
   \<and> frontmatterBlock (doc ''ref: ./other.md'') = Some ''ref: ./other.md''
   \<and> parseBlock ''ref: ./other.md'' = \<lparr>title = None, skip = None, ref = Some ''./other.md''\<rparr>
   \<and> resolveRefPath exCwd ''/r/docs/x/a/page.md'' ''./other.md'' exDir
       = Some ''/r/docs/x/a/other.md''
   \<and> ''/r/docs/x/a/other.md'' \<notin> {}
   \<and> fst (readDocInfo exCwd refFs Map.empty ''/r/docs/x/a/other.md'' exDir
            (insert ''/r/docs/x/a/other.md'' {}))
       = Some \<lparr>title = Some ''Foo'', skip = Some True, ref = None\<rparr>
   \<and> ''/r/docs/x/a/page.md'' \<noteq> join exDir ''config.json''
   \<and> \<not> isReadme (basename ''/r/docs/x/a/page.md'')
   \<and> \<not> isDraft (basename ''/r/docs/x/a/page.md'')
   \<and> fst (readDocInfo exCwd refFs Map.empty ''/r/docs/x/a/page.md'' exDir {})
       = Some \<lparr>title = Some ''Foo'', skip = Some True, ref = Some ''./other.md''\<rparr>
   \<and> routeFromFile exCwd exDir ''/r/docs/x/a/page.md''
       \<in> st_skipRoutes (processFile exCwd refFs exDir (join exDir ''config.json'')
             (buildPlacementIndex (exConfig [] [])) (initialState (exConfig [] []) Map.empty)
             ''/r/docs/x/a/page.md'')"
proof -
  have h1: "Map.empty (resolve exCwd [''/r/docs/x/a/page.md'']) = None" by simp
  have h2: "readFile exCwd refFs ''/r/docs/x/a/page.md'' = Some (doc ''ref: ./other.md'')"
    by code_simp
  have h3: "frontmatterBlock (doc ''ref: ./other.md'') = Some ''ref: ./other.md''"
    by code_simp
  have h4: "parseBlock ''ref: ./other.md''
            = \<lparr>title = None, skip = None, ref = Some ''./other.md''\<rparr>"
    by code_simp
  have h5: "resolveRefPath exCwd ''/r/docs/x/a/page.md'' ''./other.md'' exDir
            = Some ''/r/docs/x/a/other.md''"
    by code_simp
  have h6: "''/r/docs/x/a/other.md'' \<notin> {}" by simp
  have h7: "fst (readDocInfo exCwd refFs Map.empty ''/r/docs/x/a/other.md'' exDir
            (insert ''/r/docs/x/a/other.md'' {}))
       = Some \<lparr>title = Some ''Foo'', skip = Some True, ref = None\<rparr>"
    by code_simp
  have h8: "title \<lparr>title = Some ''Foo'', skip = Some True, ref = None\<rparr> = Some ''Foo''"
    by simp
  have h9: "''Foo'' \<noteq> []" by simp
  have h10: "''/r/docs/x/a/page.md'' \<noteq> join exDir ''config.json''" by code_simp
  have h11: "\<not> isReadme (basename ''/r/docs/x/a/page.md'')" by code_simp
  have h12: "\<not> isDraft (basename ''/r/docs/x/a/page.md'')" by code_simp
  have st: "st_cache (initialState (exConfig [] []) Map.empty) = Map.empty"
    by (simp add: initialState_def)
  show ?thesis
    using h1 h2 h3 h4 h5 h7 h10 h11 h12 st
      ref_inheritance[OF _ h2 h3 h4 h5 h6 h7 h8 h9,
        of "initialState (exConfig [] []) Map.empty" "join exDir ''config.json''"
           "buildPlacementIndex (exConfig [] [])"]
    by simp
qed

subsection \<open>C6: entries without a file are reported and kept\<close>

text \<open>
  C6. An entry of a container of the configuration read, whose route is neither the route
  of a scanned content file nor skip-eligible, has its route in \<^verbatim>\<open>missingFiles\<close> after the
  pass, and the entry itself is still in the same container of the configuration that
  is written. The routes seen are the routes of the listed content files other than the
  configuration file; the skip-eligible routes are those of the listed readme files,
  drafts and titled files with the skip flag.
\<close>

theorem missing_files_not_removed:
  assumes "validPlacement config pl" and "e \<in> set (getContainer config pl)"
    and "to e \<notin> st_seenRoutes (scanFiles cwd fs cache dir config)"
    and "to e \<notin> st_skipRoutes (scanFiles cwd fs cache dir config)"
  shows "to e \<in> set (missingFiles (fst (processDocsConfig cwd fs cache dir config)))
       \<and> e \<in> set (getContainer (fst (snd (processDocsConfig cwd fs cache dir config))) pl)
       \<and> st_seenRoutes (scanFiles cwd fs cache dir config)
           = routeFromFile cwd dir ` (set (listContentFiles fs dir) - {join dir ''config.json''})
       \<and> st_skipRoutes (scanFiles cwd fs cache dir config)
           = routeFromFile cwd dir `
               {f \<in> set (listContentFiles fs dir) - {join dir ''config.json''}.
                  skipEligible cwd (st_cache (scanFiles cwd fs cache dir config)) f}"
proof -
  let ?st = "scanFiles cwd fs cache dir config"
  let ?cfg' = "fst (snd (processDocsConfig cwd fs cache dir config))"
  obtain extra where x: "getContainer ?cfg' pl
      = keepEntries (st_skipRoutes ?st) (getContainer config pl @ extra)"
    using final_container[OF assms(1)] by blast
  have kept: "e \<in> set (getContainer ?cfg' pl)"
    using assms(2,4) by (simp add: x keepEntries_def)
  then have "to e \<in> set (missingFiles (fst (processDocsConfig cwd fs cache dir config)))"
    unfolding final_missingFiles using assms(1,3,4) by blast
  then show ?thesis
    using kept scanFiles_seenRoutes[of cwd fs cache dir config]
      scanFiles_skipRoutes[of cwd fs cache dir config] by simp
qed

theorem missing_files_not_removed_witness:
  "validPlacement passConfig \<lparr>sectionIx = 0, frameworkIx = None\<rparr>
   \<and> \<lparr>label = ''Old'', to = ''a/old'', badge = Some ''new''\<rparr>
       \<in> set (getContainer passConfig \<lparr>sectionIx = 0, frameworkIx = None\<rparr>)
   \<and> ''a/old'' \<notin> st_seenRoutes (scanFiles exCwd passFs Map.empty exDir passConfig)
   \<and> ''a/old'' \<notin> st_skipRoutes (scanFiles exCwd passFs Map.empty exDir passConfig)
   \<and> ''a/old'' \<in> set (missingFiles (fst (processDocsConfig exCwd passFs Map.empty exDir passConfig)))
   \<and> \<lparr>label = ''Old'', to = ''a/old'', badge = Some ''new''\<rparr>
       \<in> set (getContainer (fst (snd (processDocsConfig exCwd passFs Map.empty exDir passConfig)))
               \<lparr>sectionIx = 0, frameworkIx = None\<rparr>)"
proof -
  let ?e = "\<lparr>label = ''Old'', to = ''a/old'', badge = Some ''new''\<rparr>"
  have h1: "validPlacement passConfig \<lparr>sectionIx = 0, frameworkIx = None\<rparr>" by code_simp
  have h2: "?e \<in> set (getContainer passConfig \<lparr>sectionIx = 0, frameworkIx = None\<rparr>)"
    by code_simp
  have h3: "to ?e \<notin> st_seenRoutes (scanFiles exCwd passFs Map.empty exDir passConfig)"
    by code_simp
  have h4: "to ?e \<notin> st_skipRoutes (scanFiles exCwd passFs Map.empty exDir passConfig)"
    by code_simp
  show ?thesis
    using h1 h2 h3 h4 missing_files_not_removed[OF h1 h2 h3 h4] by simp
qed

subsection \<open>C7: the first registrant of an ancestor route keeps it\<close>

text \<open>
  C7. \<^verbatim>\<open>buildPlacementIndex\<close> registers the entries section by section, the direct
  children of a section before its framework groups. After it, \<^verbatim>\<open>byDir\<close> maps a route
  \<open>x\<close> to the container of the first registered entry that has \<open>x\<close> among its ancestor
  routes, and to nothing when no entry has. A single \<^verbatim>\<open>register\<close> leaves every mapping of
  \<^verbatim>\<open>byDir\<close> as it is and only fills the ancestor routes that have none, so no later
  registration, of the same route or of another, overwrites one. The ancestor routes of
  a route are the non-empty routes reached from it by repeated \<^verbatim>\<open>parentRoute\<close>, the route
  itself included.
\<close>

theorem byDir_first_registrant:
  "byDir (buildPlacementIndex config) x
     = map_option snd (find (\<lambda>rp. x \<in> set (ancestorRoutes (fst rp))) (registrations config))
   \<and> byDir (register route placement index) x
     = (case byDir index x of
          Some q \<Rightarrow> Some q
        | None \<Rightarrow> if x \<in> set (ancestorRoutes route) then Some placement else None)
   \<and> (x \<in> set (ancestorRoutes route) \<longleftrightarrow> x \<noteq> [] \<and> (\<exists>n. x = (parentRoute ^^ n) route))"
  by (simp add: buildPlacementIndex_registerAll byDir_registerAll byDir_register
        ancestorRoutes_iff)

theorem byDir_first_registrant_witness:
  "registrations (exConfig [navItem ''D'' ''a/b/c/d''] [navItem ''B'' ''a/b''])
     = [(''a/b/c/d'', \<lparr>sectionIx = 0, frameworkIx = None\<rparr>),
        (''a/b'', \<lparr>sectionIx = 1, frameworkIx = None\<rparr>)]
   \<and> ancestorRoutes ''a/b/c/d'' = [''a/b/c/d'', ''a/b/c'', ''a/b'', ''a'']
   \<and> byDir (buildPlacementIndex (exConfig [navItem ''D'' ''a/b/c/d''] [navItem ''B'' ''a/b''])) ''a/b''
     = Some \<lparr>sectionIx = 0, frameworkIx = None\<rparr>"
proof -
  have r: "registrations (exConfig [navItem ''D'' ''a/b/c/d''] [navItem ''B'' ''a/b''])
     = [(''a/b/c/d'', \<lparr>sectionIx = 0, frameworkIx = None\<rparr>),
        (''a/b'', \<lparr>sectionIx = 1, frameworkIx = None\<rparr>)]"
    by code_simp
  have a: "ancestorRoutes ''a/b/c/d'' = [''a/b/c/d'', ''a/b/c'', ''a/b'', ''a'']"
    by code_simp
  show ?thesis
    using r a
      byDir_first_registrant[of "exConfig [navItem ''D'' ''a/b/c/d''] [navItem ''B'' ''a/b'']"
        "''a/b''"]
    by simp
qed

subsection \<open>C8: frontmatter resolution terminates\<close>

text \<open>
  C8. \<^verbatim>\<open>readDocInfo\<close> terminates on every file, file system, cache and stack: every
  argument is in the domain of the recursion. When the reference of a file without a
  title resolves to a path that is on the stack, the chain is cut there: the call
  returns, and caches, the information of the file's own header.
\<close>

theorem readDocInfo_terminates:
  "readDocInfo_dom (cwd, fs, cache, filePath, docsDir, stack)
   \<and> (cache (resolve cwd [filePath]) = None
        \<and> readFile cwd fs filePath = Some raw
        \<and> frontmatterBlock raw = Some block
        \<and> \<not> truthy (title (parseBlock block))
        \<and> ref (parseBlock block) = Some rv
        \<and> resolveRefPath cwd filePath rv docsDir = Some refPath
        \<and> refPath \<in> stack
      \<longrightarrow> readDocInfo cwd fs cache filePath docsDir stack
           = (Some (parseBlock block),
              cache(resolve cwd [filePath] \<mapsto> Some (parseBlock block))))"
  using readDocInfo_dom_tuple readDocInfo_truncated by blast

theorem readDocInfo_terminates_witness:
  "Map.empty (resolve exCwd [''/r/docs/x/a.md'']) = None
   \<and> readFile exCwd cycleFs ''/r/docs/x/a.md'' = Some (doc ''ref: ./b.md'')
   \<and> frontmatterBlock (doc ''ref: ./b.md'') = Some ''ref: ./b.md''
   \<and> \<not> truthy (title (parseBlock ''ref: ./b.md''))
   \<and> ref (parseBlock ''ref: ./b.md'') = Some ''./b.md''
   \<and> resolveRefPath exCwd ''/r/docs/x/a.md'' ''./b.md'' exDir = Some ''/r/docs/x/b.md''
   \<and> ''/r/docs/x/b.md'' \<in> {''/r/docs/x/b.md'', ''/r/docs/x/a.md''}
   \<and> readDocInfo_dom (exCwd, cycleFs, Map.empty, ''/r/docs/x/a.md'', exDir,
          {''/r/docs/x/b.md'', ''/r/docs/x/a.md''})
   \<and> fst (readDocInfo exCwd cycleFs Map.empty ''/r/docs/x/a.md'' exDir
          {''/r/docs/x/b.md'', ''/r/docs/x/a.md''})
       = Some \<lparr>title = None, skip = None, ref = Some ''./b.md''\<rparr>
   \<and> fst (readDocInfo exCwd cycleFs Map.empty ''/r/docs/x/a.md'' exDir {})
       = Some \<lparr>title = None, skip = None, ref = Some ''./b.md''\<rparr>"
proof -
  have h2: "readFile exCwd cycleFs ''/r/docs/x/a.md'' = Some (doc ''ref: ./b.md'')"
    by code_simp
  have h3: "frontmatterBlock (doc ''ref: ./b.md'') = Some ''ref: ./b.md''"
    by code_simp
  have h4: "parseBlock ''ref: ./b.md'' = \<lparr>title = None, skip = None, ref = Some ''./b.md''\<rparr>"
    by code_simp
  have h6: "resolveRefPath exCwd ''/r/docs/x/a.md'' ''./b.md'' exDir = Some ''/r/docs/x/b.md''"
    by code_simp
  have h8: "fst (readDocInfo exCwd cycleFs Map.empty ''/r/docs/x/a.md'' exDir {})
       = Some \<lparr>title = None, skip = None, ref = Some ''./b.md''\<rparr>"
    by code_simp
  show ?thesis
    using h2 h3 h4 h6 h8
      readDocInfo_terminates[of exCwd cycleFs Map.empty "''/r/docs/x/a.md''" exDir
        "{''/r/docs/x/b.md'', ''/r/docs/x/a.md''}" "doc ''ref: ./b.md''" "''ref: ./b.md''"
        "''./b.md''" "''/r/docs/x/b.md''"]
    by (simp add: truthy_def)
qed

subsection \<open>C9: the pass changes only the children arrays\<close>

text \<open>
  C9, as amended. Let the value parsed from the configuration file be a \<^verbatim>\<open>DocsConfig\<close>.
  With every children array emptied, the file written is the serialisation of the value
  parsed: all keys of all objects in the order of the value, and \<^verbatim>\<open>docSearch\<close>,
  \<^verbatim>\<open>users\<close>, the labels and the keys the interfaces do not name with their values. Every
  children array is the old one with entries appended, each as the pass creates it, and
  the entries with a skip-eligible route filtered out; the entries that stay are the old
  objects, badge and key order included. When parsing and serialising give the file read
  back as it is, all of this holds between the file read and the file written: the same
  keys in the same order, the same value under every top-level key but \<^verbatim>\<open>sections\<close>,
  and the same sections but for their children arrays. That is so when no object of the
  file read has a key twice or a key that is an array index, and every number in it is
  written back as the number it is.
\<close>

theorem config_frame:
  assumes "conforms (readJson document)"
  shows "eraseChildrenJ (fst (snd (processDocsConfigFile num cwd fs cache dir document)))
           = eraseChildrenJ (writeJson num (readJson document))
       \<and> (\<forall>pl. validJ (readJson document) pl \<longrightarrow>
             (\<exists>extra. getContainerJ (fst (snd (processDocsConfigFile num cwd fs cache dir document))) pl
                        = map (writeJson num)
                            (keepJ (vs_skipRoutes (scanFilesJ cwd fs cache dir (readJson document)))
                               (getContainerJ (readJson document) pl @ extra))
                      \<and> (\<forall>e \<in> set extra. isNewEntry e)))
       \<and> (writeJson num (readJson document) = document \<longrightarrow>
             eraseChildrenJ (fst (snd (processDocsConfigFile num cwd fs cache dir document)))
               = eraseChildrenJ document
             \<and> keysOf (fst (snd (processDocsConfigFile num cwd fs cache dir document)))
                 = keysOf document
             \<and> (\<forall>k. k \<noteq> ''sections'' \<longrightarrow>
                   getProp (fst (snd (processDocsConfigFile num cwd fs cache dir document))) k
                     = getProp document k)
             \<and> map eraseSectionJ
                   (sectionsJ (fst (snd (processDocsConfigFile num cwd fs cache dir document))))
                 = map eraseSectionJ (sectionsJ document)
             \<and> (\<forall>pl. validJ document pl \<longrightarrow>
                   (\<exists>extra. getContainerJ
                               (fst (snd (processDocsConfigFile num cwd fs cache dir document))) pl
                              = keepJ (vs_skipRoutes
                                         (scanFilesJ cwd fs cache dir (readJson document)))
                                  (getContainerJ document pl @ extra)
                            \<and> (\<forall>e \<in> set extra. isNewEntry e))))
       \<and> (plainText num document \<longrightarrow> writeJson num (readJson document) = document)"
proof -
  let ?v = "readJson document"
  let ?out = "fst (snd (processDocsConfigJ cwd fs cache dir ?v))"
  let ?w = "fst (snd (processDocsConfigFile num cwd fs cache dir document))"
  let ?skip = "vs_skipRoutes (scanFilesJ cwd fs cache dir ?v)"
  have w: "?w = JSON_stringify num ?out"
    by (simp add: processDocsConfigFile_written writeJson_def)
  have c1: "eraseChildrenJ ?w = eraseChildrenJ (writeJson num ?v)"
    unfolding w writeJson_def
    by (simp only: JSON_stringify_eraseChildrenJ[symmetric] final_eraseChildrenJ)
  have c2: "\<exists>extra. getContainerJ ?w pl = map (writeJson num) (keepJ ?skip (getContainerJ ?v pl @ extra))
                  \<and> (\<forall>e \<in> set extra. isNewEntry e)"
    if v: "validJ ?v pl" for pl
  proof -
    obtain extra where ex: "getContainerJ ?out pl = keepJ ?skip (getContainerJ ?v pl @ extra)"
        "\<forall>e \<in> set extra. isNewEntry e"
      using final_containerJ[OF v] by blast
    have vo: "validJ ?out pl" using v by (simp only: final_validJ)
    have "getContainerJ ?w pl = map (JSON_stringify num) (getContainerJ ?out pl)"
      unfolding w using vo by (rule getContainerJ_JSON_stringify)
    then have "getContainerJ ?w pl = map (writeJson num) (keepJ ?skip (getContainerJ ?v pl @ extra))"
      using ex(1) by (simp add: writeJson_def[abs_def])
    then show ?thesis using ex(2) by blast
  qed
  have c3: "eraseChildrenJ ?w = eraseChildrenJ document
             \<and> keysOf ?w = keysOf document
             \<and> (\<forall>k. k \<noteq> ''sections'' \<longrightarrow> getProp ?w k = getProp document k)
             \<and> map eraseSectionJ (sectionsJ ?w) = map eraseSectionJ (sectionsJ document)
             \<and> (\<forall>pl. validJ document pl \<longrightarrow>
                   (\<exists>extra. getContainerJ ?w pl = keepJ ?skip (getContainerJ document pl @ extra)
                            \<and> (\<forall>e \<in> set extra. isNewEntry e)))"
    if wr: "writeJson num (readJson document) = document"
  proof -
    have d: "document = JSON_stringify num ?v" using wr by (simp add: writeJson_def)
    have e: "eraseChildrenJ ?w = eraseChildrenJ document"
      using c1 by (simp only: wr)
    have cont: "\<exists>extra. getContainerJ ?w pl = keepJ ?skip (getContainerJ document pl @ extra)
                \<and> (\<forall>e \<in> set extra. isNewEntry e)"
      if v: "validJ document pl" for pl
    proof -
      have "validJ (JSON_stringify num ?v) pl" using v d by simp
      then have v': "validJ ?v pl" by (simp only: validJ_JSON_stringify)
      obtain extra where ex:
          "getContainerJ ?w pl = map (writeJson num) (keepJ ?skip (getContainerJ ?v pl @ extra))"
          "\<forall>e \<in> set extra. isNewEntry e"
        using c2[OF v'] by blast
      have "getContainerJ (JSON_stringify num ?v) pl = map (JSON_stringify num) (getContainerJ ?v pl)"
        using v' by (rule getContainerJ_JSON_stringify)
      then have o: "map (JSON_stringify num) (getContainerJ ?v pl) = getContainerJ document pl"
        using d by simp
      have n: "map (JSON_stringify num) extra = extra"
        using ex(2) by (simp add: map_idI JSON_stringify_new)
      have "map (writeJson num) (keepJ ?skip (getContainerJ ?v pl @ extra))
            = keepJ ?skip (map (JSON_stringify num) (getContainerJ ?v pl @ extra))"
        by (simp only: keepJ_JSON_stringify writeJson_def[abs_def])
      also have "\<dots> = keepJ ?skip (getContainerJ document pl @ extra)"
        by (simp add: o n)
      finally have "getContainerJ ?w pl = keepJ ?skip (getContainerJ document pl @ extra)"
        using ex(1) by simp
      then show ?thesis using ex(2) by blast
    qed
    note q = eraseChildrenJ_consequences[OF e]
    from e q(1) q(2) q(3) cont show ?thesis by blast
  qed
  have c4: "writeJson num (readJson document) = document" if p: "plainText num document"
  proof -
    have r: "readJson document = document"
      using p by (simp add: readJson_def JSON_parse_plain)
    show ?thesis using p by (simp add: r writeJson_def JSON_stringify_plain)
  qed
  from c1 c2 c3 c4 show ?thesis by blast
qed

theorem config_frame_witness:
  "conforms (readJson exDoc) \<and> plainText Some exDoc
   \<and> writeJson Some (readJson exDoc) = exDoc
   \<and> validJ exDoc \<lparr>sectionIx = 0, frameworkIx = None\<rparr>
   \<and> eraseChildrenJ (fst (snd (processDocsConfigFile Some exCwd passFs Map.empty exDir exDoc)))
       = eraseChildrenJ exDoc
   \<and> keysOf (fst (snd (processDocsConfigFile Some exCwd passFs Map.empty exDir exDoc)))
       = [''docSearch'', ''sections'', ''version'', ''users'']
   \<and> getProp (fst (snd (processDocsConfigFile Some exCwd passFs Map.empty exDir exDoc))) ''docSearch''
       = Some (JObj [(''appId'', JStr ''A''), (''hits'', JNum 20)])
   \<and> (\<exists>extra. getContainerJ (fst (snd (processDocsConfigFile Some exCwd passFs Map.empty exDir exDoc)))
                   \<lparr>sectionIx = 0, frameworkIx = None\<rparr>
                = keepJ (vs_skipRoutes (scanFilesJ exCwd passFs Map.empty exDir (readJson exDoc)))
                    (getContainerJ exDoc \<lparr>sectionIx = 0, frameworkIx = None\<rparr> @ extra)
              \<and> (\<forall>e \<in> set extra. isNewEntry e))
   \<and> fst (snd (processDocsConfigFile Some exCwd passFs Map.empty exDir exDoc)) = JObj
     [(''docSearch'', JObj [(''appId'', JStr ''A''), (''hits'', JNum 20)]),
      (''sections'', JArr
         [JObj [(''label'', JStr ''Guide''),
                (''children'', JArr
                   [JObj [(''to'', JStr ''a/b''), (''label'', JStr ''B'')],
                    JObj [(''label'', JStr ''Old''), (''badge'', JStr ''new''),
                          (''to'', JStr ''a/old'')],
                    JObj [(''label'', JStr ''C''), (''to'', JStr ''a/b/c'')]]),
                (''collapsible'', JBool True)],
          JObj [(''label'', JStr ''Api''),
                (''children'', JArr [JObj [(''label'', JStr ''N''), (''to'', JStr ''a/n'')]]),
                (''frameworks'', JArr
                   [JObj [(''label'', JStr ''react''), (''children'', JArr [])]])]]),
      (''version'', JNum 2),
      (''users'', JArr [JStr ''u''])]
   \<and> fst (processDocsConfigFile Some exCwd passFs Map.empty exDir exDoc)
       = fst (processDocsConfig exCwd passFs Map.empty exDir passConfig)"
proof -
  let ?w = "fst (snd (processDocsConfigFile Some exCwd passFs Map.empty exDir exDoc))"
  let ?pl = "\<lparr>sectionIx = 0, frameworkIx = None\<rparr>"
  have h: "conforms (readJson exDoc)" by code_simp
  have p: "plainText Some exDoc" by code_simp
  have v: "validJ exDoc ?pl" by code_simp
  have k: "keysOf exDoc = [''docSearch'', ''sections'', ''version'', ''users'']" by code_simp
  have d: "getProp exDoc ''docSearch'' = Some (JObj [(''appId'', JStr ''A''), (''hits'', JNum 20)])"
    by code_simp
  have w: "?w = JObj
     [(''docSearch'', JObj [(''appId'', JStr ''A''), (''hits'', JNum 20)]),
      (''sections'', JArr
         [JObj [(''label'', JStr ''Guide''),
                (''children'', JArr
                   [JObj [(''to'', JStr ''a/b''), (''label'', JStr ''B'')],
                    JObj [(''label'', JStr ''Old''), (''badge'', JStr ''new''),
                          (''to'', JStr ''a/old'')],
                    JObj [(''label'', JStr ''C''), (''to'', JStr ''a/b/c'')]]),
                (''collapsible'', JBool True)],
          JObj [(''label'', JStr ''Api''),
                (''children'', JArr [JObj [(''label'', JStr ''N''), (''to'', JStr ''a/n'')]]),
                (''frameworks'', JArr
                   [JObj [(''label'', JStr ''react''), (''children'', JArr [])]])]]),
      (''version'', JNum 2),
      (''users'', JArr [JStr ''u''])]"
    by code_simp
  have lg: "fst (processDocsConfigFile Some exCwd passFs Map.empty exDir exDoc)
       = fst (processDocsConfig exCwd passFs Map.empty exDir passConfig)"
    by code_simp
  note T = config_frame[OF h, where num = Some and cwd = exCwd and fs = passFs
               and cache = Map.empty and dir = exDir]
  note W = T[THEN conjunct2, THEN conjunct2, THEN conjunct2, rule_format, OF p]
  note P = T[THEN conjunct2, THEN conjunct2, THEN conjunct1, rule_format, OF W]
  note P2 = P[THEN conjunct1]
  note P3 = P[THEN conjunct2, THEN conjunct1]
  note P4 = P[THEN conjunct2, THEN conjunct2, THEN conjunct1, rule_format,
              of "''docSearch''"]
  note P6 = P[THEN conjunct2, THEN conjunct2, THEN conjunct2, THEN conjunct2,
              rule_format, OF v]
  have c3: "keysOf ?w = [''docSearch'', ''sections'', ''version'', ''users'']"
    using P3 by (simp only: k)
  have "''docSearch'' \<noteq> ''sections''" by simp
  then have "getProp ?w ''docSearch'' = getProp exDoc ''docSearch''" by (rule P4)
  then have c4: "getProp ?w ''docSearch'' = Some (JObj [(''appId'', JStr ''A''), (''hits'', JNum 20)])"
    by (simp only: d)
  from h p W v P2 c3 c4 P6 w lg show ?thesis by (intro conjI)
qed

text \<open>
  C9 as stated fails for a configuration file with a key that is an array index. With
  the top-level keys \<^verbatim>\<open>docSearch\<close>, \<^verbatim>\<open>sections\<close> and \<^verbatim>\<open>1\<close> in this order and no content
  file at all, the file written has the key \<^verbatim>\<open>1\<close> first: \<^verbatim>\<open>JSON.stringify\<close> writes the
  keys in the order of the own property keys of the object, not in the order of the text
  read.
\<close>

theorem config_frame_counterexample:
  "conforms (readJson numDoc)
   \<and> listContentFiles [] exDir = []
   \<and> keysOf numDoc = [''docSearch'', ''sections'', ''1'']
   \<and> fst (snd (processDocsConfigFile Some exCwd [] Map.empty exDir numDoc))
       = JObj [(''1'', JStr ''x''), (''docSearch'', JNull), (''sections'', JArr [])]
   \<and> keysOf (fst (snd (processDocsConfigFile Some exCwd [] Map.empty exDir numDoc)))
       = [''1'', ''docSearch'', ''sections'']
   \<and> fst (snd (processDocsConfigFile Some exCwd [] Map.empty exDir numDoc)) \<noteq> numDoc"
  by code_simp

subsection \<open>C10: an empty title counts as no title\<close>



end
